theory Spec2Isabelle
  imports Complex_Main "HOL-Library.Word"
begin

section \<open>JavaScript values\<close>

text \<open>
  The server is \<^verbatim>\<open>src/index.ts\<close>.  Everything it handles arrives as JSON: the tool
  arguments over JSON-RPC, the response bodies through axios.  A JavaScript string is
  modelled by its UTF-8 bytes (one \<^typ>\<open>char\<close> per byte; a string with half a
  surrogate pair has none and is not modelled); an object by its own properties in
  property order.

  A number is a double: a rational (the finite doubles other than \<^verbatim>\<open>-0\<close>), \<^verbatim>\<open>-0\<close>, or
  an infinity.  \<^verbatim>\<open>NaN\<close> comes out of no JSON text and of nothing this program computes.
\<close>

datatype number = Finite rat | NegZero | PosInfinity | NegInfinity

datatype json =
    JNull
  | JBool bool
  | JNum number
  | JStr string
  | JArr "json list"
  | JObj "(string \<times> json) list"

text \<open>
  What an expression of the program can evaluate to: a JSON value, \<^verbatim>\<open>undefined\<close> (an
  absent argument bag, an absent property), or a built-in function inherited from a
  prototype.
\<close>

datatype jsval = Undefined | Function | Val json

fun js_typeof :: "jsval \<Rightarrow> string" where
  "js_typeof Undefined = ''undefined''"
| "js_typeof Function = ''function''"
| "js_typeof (Val JNull) = ''object''"
| "js_typeof (Val (JBool b)) = ''boolean''"
| "js_typeof (Val (JNum n)) = ''number''"
| "js_typeof (Val (JStr s)) = ''string''"
| "js_typeof (Val (JArr xs)) = ''object''"
| "js_typeof (Val (JObj kvs)) = ''object''"

text \<open>
  Property read \<^verbatim>\<open>v.k\<close>, for the property names this program reads: \<^verbatim>\<open>q\<close>, \<^verbatim>\<open>sort\<close>,
  \<^verbatim>\<open>rows\<close>, \<^verbatim>\<open>start\<close>, \<^verbatim>\<open>id\<close>, \<^verbatim>\<open>order_by\<close>, \<^verbatim>\<open>limit\<close>, \<^verbatim>\<open>offset\<close>, \<^verbatim>\<open>all_fields\<close>,
  \<^verbatim>\<open>query\<close>, \<^verbatim>\<open>error\<close>, \<^verbatim>\<open>message\<close>.  An object answers with its own property; none of
  these names is on \<^verbatim>\<open>Object.prototype\<close>.  An array inherits \<^verbatim>\<open>sort\<close> from
  \<^verbatim>\<open>Array.prototype\<close>.  Strings, numbers and booleans have none of them.  The program
  reads a property of \<^verbatim>\<open>undefined\<close> or \<^verbatim>\<open>null\<close> only behind a guard or \<^verbatim>\<open>?.\<close>.
\<close>

fun js_get :: "jsval \<Rightarrow> string \<Rightarrow> jsval" where
  "js_get (Val (JObj kvs)) k = (case map_of kvs k of Some v \<Rightarrow> Val v | None \<Rightarrow> Undefined)"
| "js_get (Val (JArr xs)) k = (if k = ''sort'' then Function else Undefined)"
| "js_get v k = Undefined"

text \<open>Optional chaining \<^verbatim>\<open>v?.k\<close>.\<close>

fun js_get_opt :: "jsval \<Rightarrow> string \<Rightarrow> jsval" where
  "js_get_opt Undefined k = Undefined"
| "js_get_opt (Val JNull) k = Undefined"
| "js_get_opt v k = js_get v k"

text \<open>Truthiness, as \<^verbatim>\<open>if (v)\<close> tests it.\<close>

fun truthy :: "jsval \<Rightarrow> bool" where
  "truthy Undefined = False"
| "truthy Function = True"
| "truthy (Val JNull) = False"
| "truthy (Val (JBool b)) = b"
| "truthy (Val (JNum n)) = (n \<noteq> Finite 0 \<and> n \<noteq> NegZero)"
| "truthy (Val (JStr s)) = (s \<noteq> [])"
| "truthy (Val (JArr xs)) = True"
| "truthy (Val (JObj kvs)) = True"

subsection \<open>Numbers\<close>

text \<open>
  A positive double is a multiple of \<open>2 ^ e\<close> below \<open>2 ^ 1024\<close>, where \<open>e\<close> is the exponent
  of the doubles around it: with \<open>l\<close> the integer such that \<open>2 ^ l \<le> q < 2 ^ (l + 1)\<close>, that
  is \<open>l - 52\<close>, and \<open>-1074\<close> where \<open>l - 52\<close> is less (the subnormal numbers).  A negative
  double is the negation of a positive one.
\<close>

fun bit_length :: "nat \<Rightarrow> nat" where
  "bit_length n = (if n = 0 then 0 else Suc (bit_length (n div 2)))"

declare bit_length.simps [simp del]

definition ilog2 :: "rat \<Rightarrow> int" where
  "ilog2 q =
     (if 1 \<le> q then int (bit_length (nat \<lfloor>q\<rfloor>)) - 1
      else - int (bit_length (nat (\<lceil>1 / q\<rceil> - 1))))"

definition exponent :: "rat \<Rightarrow> int" where
  "exponent q = max (ilog2 q - 52) (- 1074)"

definition is_double :: "rat \<Rightarrow> bool" where
  "is_double q \<longleftrightarrow>
     q = 0 \<or> (\<bar>q\<bar> < 2 ^ 1024 \<and>
              of_int \<lfloor>\<bar>q\<bar> / 2 powi exponent \<bar>q\<bar>\<rfloor> = \<bar>q\<bar> / 2 powi exponent \<bar>q\<bar>)"

text \<open>
  The Number value of a real that is not negative (ECMA-262, 6.1.6.1): the nearest
  multiple of \<open>2 ^ e\<close>, the even one when two are as near, and the positive infinity when
  that is \<open>2 ^ 1024\<close> or more.
\<close>

definition round_half_even :: "rat \<Rightarrow> int" where
  "round_half_even y =
     (if y - of_int \<lfloor>y\<rfloor> < 1 / 2 then \<lfloor>y\<rfloor>
      else if 1 / 2 < y - of_int \<lfloor>y\<rfloor> then \<lfloor>y\<rfloor> + 1
      else if even \<lfloor>y\<rfloor> then \<lfloor>y\<rfloor> else \<lfloor>y\<rfloor> + 1)"

definition nearest :: "rat \<Rightarrow> rat" where
  "nearest q = of_int (round_half_even (q / 2 powi exponent q)) * 2 powi exponent q"

definition number_value :: "rat \<Rightarrow> number" where
  "number_value q =
     (if q = 0 then Finite 0
      else if 2 ^ 1024 \<le> nearest q then PosInfinity
      else Finite (nearest q))"

fun negate :: "number \<Rightarrow> number" where
  "negate (Finite q) = (if q = 0 then NegZero else Finite (- q))"
| "negate NegZero = Finite 0"
| "negate PosInfinity = NegInfinity"
| "negate NegInfinity = PosInfinity"

fun is_finite :: "number \<Rightarrow> bool" where
  "is_finite (Finite q) = True"
| "is_finite NegZero = True"
| "is_finite PosInfinity = False"
| "is_finite NegInfinity = False"

text \<open>The numbers that are values of the language: a rational one is a double.\<close>

fun is_number :: "number \<Rightarrow> bool" where
  "is_number (Finite q) = is_double q"
| "is_number x = True"

subsection \<open>Numbers and values as strings\<close>

definition digit_char :: "nat \<Rightarrow> char" where
  "digit_char d = char_of (48 + d)"

fun digits :: "nat \<Rightarrow> string" where
  "digits n = (if n < 10 then [digit_char n] else digits (n div 10) @ [digit_char (n mod 10)])"

declare digits.simps [simp del]

text \<open>
  \<^verbatim>\<open>Number::toString\<close> of a positive \<open>q\<close> (ECMA-262, 6.1.6.1.20) takes integers \<open>n\<close>,
  \<open>k\<close> and \<open>s\<close> with \<open>k \<ge> 1\<close>, \<open>10 ^ (k - 1) \<le> s < 10 ^ k\<close> and \<open>s * 10 ^ (n - k)\<close> of
  Number value \<open>q\<close>, with \<open>k\<close> as small as possible, and among several \<open>s\<close> the one with
  \<open>s * 10 ^ (n - k)\<close> nearest to \<open>q\<close>, the even one of two (the choice that ECMA-262
  recommends and V8 makes; any other would parse to \<open>q\<close> as well).  \<open>magnitude q\<close> is the \<open>n\<close>
  with \<open>10 ^ (n - 1) \<le> q < 10 ^ n\<close>.  With \<open>k\<close> digits, the candidates are the integers
  below and above \<open>q / 10 ^ (n - k)\<close>; the one above may be \<open>10 ^ k\<close>, which stands for
  \<open>10 ^ (k - 1)\<close> with the next \<open>n\<close>.
\<close>

definition magnitude :: "rat \<Rightarrow> int" where
  "magnitude q =
     (if 1 \<le> q then int (length (digits (nat \<lfloor>q\<rfloor>)))
      else 1 - int (length (digits (nat (\<lceil>1 / q\<rceil> - 1)))))"

definition represents :: "rat \<Rightarrow> int \<Rightarrow> nat \<Rightarrow> nat \<Rightarrow> bool" where
  "represents q n k s \<longleftrightarrow>
     10 ^ (k - 1) \<le> s \<and> s < 10 ^ k \<and>
     number_value (of_nat s * 10 powi (n - int k)) = Finite q"

definition candidate :: "rat \<Rightarrow> int \<Rightarrow> nat \<Rightarrow> nat \<Rightarrow> (int \<times> nat \<times> nat) option" where
  "candidate q n k s =
     (if s = 10 ^ k then
        (if represents q (n + 1) k (10 ^ (k - 1)) then Some (n + 1, k, 10 ^ (k - 1)) else None)
      else if represents q n k s then Some (n, k, s)
      else None)"

definition digits_of_length :: "rat \<Rightarrow> int \<Rightarrow> nat \<Rightarrow> (int \<times> nat \<times> nat) option" where
  "digits_of_length q n k =
     (let y = q / 10 powi (n - int k); lo = nat \<lfloor>y\<rfloor>
      in case candidate q n k lo of
           None \<Rightarrow> candidate q n k (lo + 1)
         | Some a \<Rightarrow>
             (case candidate q n k (lo + 1) of
                None \<Rightarrow> Some a
              | Some b \<Rightarrow>
                  if y - of_nat lo < of_nat (lo + 1) - y then Some a
                  else if of_nat (lo + 1) - y < y - of_nat lo then Some b
                  else if even lo then Some a else Some b))"

fun shortest :: "rat \<Rightarrow> int \<Rightarrow> nat list \<Rightarrow> (int \<times> nat \<times> nat) option" where
  "shortest q n [] = None"
| "shortest q n (k # ks) =
     (case digits_of_length q n k of
        Some r \<Rightarrow> Some r
      | None \<Rightarrow> shortest q n ks)"

text \<open>
  Seventeen digits are enough for every double.  The digits of \<open>q\<close> in full, for a
  double \<open>q = z * 2 ^ e\<close>, are those of \<open>z * 2 ^ e\<close>, or of \<open>z * 5 ^ (- e)\<close> with the point
  moved by \<open>e\<close>; they stand in where the search finds nothing.
\<close>

definition exact_digits :: "rat \<Rightarrow> int \<times> nat \<times> nat" where
  "exact_digits q =
     (let e = exponent q; z = nat \<lfloor>q / 2 powi e\<rfloor>;
          s = (if 0 \<le> e then z * 2 ^ nat e else z * 5 ^ nat (- e))
      in (int (length (digits s)) + (if 0 \<le> e then 0 else e), length (digits s), s))"

definition shortest_digits :: "rat \<Rightarrow> int \<times> nat \<times> nat" where
  "shortest_digits q =
     (case shortest q (magnitude q) [1 ..< 18] of Some r \<Rightarrow> r | None \<Rightarrow> exact_digits q)"

text \<open>
  The text for \<open>n\<close>, \<open>k\<close> and the \<open>k\<close> digits of \<open>s\<close>: the digits and zeros up to the
  point; the digits with the point after the first \<open>n\<close>; \<^verbatim>\<open>0.\<close>, zeros and the digits;
  or, for \<open>n\<close> above 21 or below \<open>-5\<close>, the exponent form.
\<close>

definition exponent_part :: "int \<Rightarrow> string" where
  "exponent_part e = (if e < 0 then CHR ''-'' # digits (nat (- e)) else CHR ''+'' # digits (nat e))"

definition number_text :: "int \<Rightarrow> nat \<Rightarrow> string \<Rightarrow> string" where
  "number_text n k ds =
     (if int k \<le> n \<and> n \<le> 21 then ds @ replicate (nat (n - int k)) CHR ''0''
      else if 0 < n \<and> n \<le> 21 then take (nat n) ds @ ''.'' @ drop (nat n) ds
      else if - 6 < n \<and> n \<le> 0 then ''0.'' @ replicate (nat (- n)) CHR ''0'' @ ds
      else if k = 1 then ds @ ''e'' @ exponent_part (n - 1)
      else take 1 ds @ ''.'' @ drop 1 ds @ ''e'' @ exponent_part (n - 1))"

definition positive_string :: "rat \<Rightarrow> string" where
  "positive_string q = (case shortest_digits q of (n, k, s) \<Rightarrow> number_text n k (digits s))"

fun NumberToString :: "number \<Rightarrow> string" where
  "NumberToString (Finite q) =
     (if q = 0 then ''0''
      else if q < 0 then CHR ''-'' # positive_string (- q)
      else positive_string q)"
| "NumberToString NegZero = ''0''"
| "NumberToString PosInfinity = ''Infinity''"
| "NumberToString NegInfinity = ''-Infinity''"

declare NumberToString.simps [simp del]

datatype error_code = InvalidRequest | MethodNotFound | InvalidParams

datatype 'd response = Response (status: int) (headers: "(string \<times> string) list") (data: 'd)

text \<open>
  What a rejected \<^verbatim>\<open>axios.get\<close> throws: an \<^verbatim>\<open>AxiosError\<close> with its message, the
  response if one was received, and whether a request object is attached; or any
  other \<^verbatim>\<open>Error\<close>, kept by its string conversion.
\<close>

datatype 'd failure =
    AxiosError (message: string) (response: "'d response option") (request: bool)
  | OtherError string

datatype 'd outcome = Resolved "'d response" | Rejected "'d failure"

type_synonym bytes = "8 word list"

text \<open>
  What handling a request can throw: an \<^verbatim>\<open>McpError\<close> of the server, a \<^verbatim>\<open>TypeError\<close> or
  \<^verbatim>\<open>URIError\<close> of a built-in, the error of a failed GET thrown again, and the
  \<^verbatim>\<open>ZodError\<close> of a request that its schema refuses.
\<close>

datatype thrown =
    McpError error_code string
  | TypeError
  | URIError
  | Rethrown "bytes failure"
  | ZodError

text \<open>
  \<^verbatim>\<open>ToString\<close> of a JSON value, as a template literal \<^verbatim>\<open>`${v}`\<close> applies it.  An array
  is joined with commas, \<^verbatim>\<open>null\<close> elements as empty strings.  A plain object is
  \<^verbatim>\<open>[object Object]\<close>, unless it has an own property \<^verbatim>\<open>toString\<close>: a JSON value is
  never callable, so \<^verbatim>\<open>OrdinaryToPrimitive\<close> skips it, \<^verbatim>\<open>valueOf\<close> does not give a
  primitive either, and the conversion throws a \<^verbatim>\<open>TypeError\<close>.
\<close>

fun ToString :: "json \<Rightarrow> thrown + string"
  and join_elements :: "json list \<Rightarrow> thrown + string"
  and element_string :: "json \<Rightarrow> thrown + string" where
  "ToString JNull = Inr ''null''"
| "ToString (JBool b) = Inr (if b then ''true'' else ''false'')"
| "ToString (JNum n) = Inr (NumberToString n)"
| "ToString (JStr s) = Inr s"
| "ToString (JArr xs) = join_elements xs"
| "ToString (JObj kvs) =
     (if ''toString'' \<in> fst ` set kvs then Inl TypeError else Inr ''[object Object]'')"
| "join_elements [] = Inr []"
| "join_elements (x # xs) =
     (case element_string x of
        Inl e \<Rightarrow> Inl e
      | Inr s \<Rightarrow>
          if xs = [] then Inr s
          else (case join_elements xs of Inl e \<Rightarrow> Inl e | Inr t \<Rightarrow> Inr (s @ '','' @ t)))"
| "element_string x = (if x = JNull then Inr [] else ToString x)"

fun template :: "jsval \<Rightarrow> thrown + string" where
  "template Undefined = Inr ''undefined''"
| "template Function = Inr ''function sort() { [native code] }''"
| "template (Val v) = ToString v"

section \<open>Argument validation\<close>

definition isValidPackageSearchArgs :: "jsval \<Rightarrow> bool" where
  "isValidPackageSearchArgs args \<longleftrightarrow>
     js_typeof args = ''object'' \<and>
     args \<noteq> Val JNull \<and>
     (js_get args ''q'' = Undefined \<or> js_typeof (js_get args ''q'') = ''string'') \<and>
     (js_get args ''sort'' = Undefined \<or> js_typeof (js_get args ''sort'') = ''string'') \<and>
     (js_get args ''rows'' = Undefined \<or> js_typeof (js_get args ''rows'') = ''number'') \<and>
     (js_get args ''start'' = Undefined \<or> js_typeof (js_get args ''start'') = ''number'')"

definition isValidPackageShowArgs :: "jsval \<Rightarrow> bool" where
  "isValidPackageShowArgs args \<longleftrightarrow>
     js_typeof args = ''object'' \<and> args \<noteq> Val JNull \<and>
     js_typeof (js_get args ''id'') = ''string''"

definition isValidGroupListArgs :: "jsval \<Rightarrow> bool" where
  "isValidGroupListArgs args \<longleftrightarrow>
     js_typeof args = ''object'' \<and>
     args \<noteq> Val JNull \<and>
     (js_get args ''order_by'' = Undefined \<or> js_typeof (js_get args ''order_by'') = ''string'') \<and>
     (js_get args ''limit'' = Undefined \<or> js_typeof (js_get args ''limit'') = ''number'') \<and>
     (js_get args ''offset'' = Undefined \<or> js_typeof (js_get args ''offset'') = ''number'') \<and>
     (js_get args ''all_fields'' = Undefined \<or>
        js_typeof (js_get args ''all_fields'') = ''boolean'')"

definition isValidTagListArgs :: "jsval \<Rightarrow> bool" where
  "isValidTagListArgs args \<longleftrightarrow>
     js_typeof args = ''object'' \<and>
     args \<noteq> Val JNull \<and>
     (js_get args ''query'' = Undefined \<or> js_typeof (js_get args ''query'') = ''string'') \<and>
     (js_get args ''all_fields'' = Undefined \<or>
        js_typeof (js_get args ''all_fields'') = ''boolean'')"

section \<open>\<^verbatim>\<open>JSON.stringify(value, null, 2)\<close>\<close>

definition hex_char :: "nat \<Rightarrow> char" where
  "hex_char d = (if d < 10 then char_of (48 + d) else char_of (87 + d))"

text \<open>
  \<^verbatim>\<open>QuoteJSONString\<close>: the two-character escapes, \<^verbatim>\<open>\u00xx\<close> for the other control
  characters, every other byte as it is.
\<close>

definition quote_char :: "char \<Rightarrow> string" where
  "quote_char c =
     (let n = (of_char c :: nat) in
      if n = 0x08 then [CHR 0x5C, CHR ''b'']
      else if n = 0x09 then [CHR 0x5C, CHR ''t'']
      else if n = 0x0A then [CHR 0x5C, CHR ''n'']
      else if n = 0x0C then [CHR 0x5C, CHR ''f'']
      else if n = 0x0D then [CHR 0x5C, CHR ''r'']
      else if n = 0x22 then [CHR 0x5C, CHR 0x22]
      else if n = 0x5C then [CHR 0x5C, CHR 0x5C]
      else if n < 0x20 then
        [CHR 0x5C, CHR ''u'', CHR ''0'', CHR ''0'', hex_char (n div 16), hex_char (n mod 16)]
      else [c])"

definition QuoteJSONString :: "string \<Rightarrow> string" where
  "QuoteJSONString s = CHR 0x22 # concat (map quote_char s) @ [CHR 0x22]"

fun join :: "string \<Rightarrow> string list \<Rightarrow> string" where
  "join sep [] = []"
| "join sep [x] = x"
| "join sep (x # y # ys) = x @ sep @ join sep (y # ys)"

text \<open>The third argument \<^verbatim>\<open>2\<close> makes the gap two spaces.\<close>

definition gap :: string where
  "gap = ''  ''"

text \<open>
  \<^verbatim>\<open>SerializeJSONProperty\<close>, \<^verbatim>\<open>SerializeJSONArray\<close> and \<^verbatim>\<open>SerializeJSONObject\<close> of
  ECMA-262 with a non-empty gap; the first argument is the current indent.
\<close>

fun SerializeJSONProperty :: "string \<Rightarrow> json \<Rightarrow> string"
  and serialize_elements :: "string \<Rightarrow> json list \<Rightarrow> string list"
  and serialize_members :: "string \<Rightarrow> (string \<times> json) list \<Rightarrow> string list" where
  "SerializeJSONProperty indent JNull = ''null''"
| "SerializeJSONProperty indent (JBool b) = (if b then ''true'' else ''false'')"
| "SerializeJSONProperty indent (JNum n) = (if is_finite n then NumberToString n else ''null'')"
| "SerializeJSONProperty indent (JStr s) = QuoteJSONString s"
| "SerializeJSONProperty indent (JArr xs) =
     (if xs = [] then ''[]''
      else ''['' @ [CHR 0x0A] @ (indent @ gap) @
           join ('','' @ [CHR 0x0A] @ (indent @ gap)) (serialize_elements (indent @ gap) xs) @
           [CHR 0x0A] @ indent @ '']'')"
| "SerializeJSONProperty indent (JObj kvs) =
     (if kvs = [] then ''{}''
      else ''{'' @ [CHR 0x0A] @ (indent @ gap) @
           join ('','' @ [CHR 0x0A] @ (indent @ gap)) (serialize_members (indent @ gap) kvs) @
           [CHR 0x0A] @ indent @ ''}'')"
| "serialize_elements indent [] = []"
| "serialize_elements indent (x # xs) =
     SerializeJSONProperty indent x # serialize_elements indent xs"
| "serialize_members indent [] = []"
| "serialize_members indent ((k, v) # kvs) =
     (QuoteJSONString k @ '': '' @ SerializeJSONProperty indent v) #
     serialize_members indent kvs"

definition JSON_stringify :: "json \<Rightarrow> string" where
  "JSON_stringify v = SerializeJSONProperty [] v"

section \<open>The tool handlers\<close>

definition BASE_URL :: string where
  "BASE_URL = ''https://catalog.data.gov/api/3''"

text \<open>The configuration of one \<^verbatim>\<open>axios\<close> GET; the handlers return the requests they made.\<close>

record request_config =
  baseURL :: "string option"
  url :: string
  params :: jsval
  responseType :: "string option"

record text_content =
  ctype :: string
  ctext :: string

text \<open>The envelope of a tool call; \<open>isError = None\<close> is the property left unset.\<close>

record tool_result =
  content :: "text_content list"
  isError :: "bool option"

text \<open>
  \<^verbatim>\<open>handleAxiosError\<close>.  The body of the failed response is a JSON value (or the raw
  string) for the tools and a \<^verbatim>\<open>Buffer\<close> for the resource read; a \<^verbatim>\<open>Buffer\<close> is a truthy
  object with no \<^verbatim>\<open>error\<close> property.
\<close>

datatype body = Json json | Buffer bytes

definition error_detail :: "body \<Rightarrow> thrown + string" where
  "error_detail d =
     (case d of
        Buffer b \<Rightarrow> Inr []
      | Json j \<Rightarrow>
          if truthy (Val j) then
            if truthy (js_get_opt (js_get_opt (Val j) ''error'') ''message'') then
              (case template (js_get (js_get (Val j) ''error'') ''message'') of
                 Inl e \<Rightarrow> Inl e
               | Inr s \<Rightarrow> Inr ([CHR 0x0A] @ ''Message: '' @ s))
            else if truthy (js_get_opt (Val j) ''error'') then
              (case template (js_get (Val j) ''error'') of
                 Inl e \<Rightarrow> Inl e
               | Inr s \<Rightarrow> Inr ([CHR 0x0A] @ ''Message: '' @ s))
            else if js_typeof (Val j) = ''string'' then
              (case j of JStr s \<Rightarrow> Inr ([CHR 0x0A] @ ''Data: '' @ s) | _ \<Rightarrow> Inr [])
            else Inr []
          else Inr [])"

definition error_result :: "string \<Rightarrow> tool_result" where
  "error_result errorMessage =
     \<lparr>content = [\<lparr>ctype = ''text'', ctext = errorMessage\<rparr>], isError = Some True\<rparr>"

fun handleAxiosError :: "body failure \<Rightarrow> thrown + tool_result" where
  "handleAxiosError (AxiosError msg resp req) =
     (case resp of
        Some r \<Rightarrow>
          (case error_detail (data r) of
             Inl e \<Rightarrow> Inl e
           | Inr detail \<Rightarrow>
               Inr (error_result (''Data.gov API error: '' @ msg @
                      [CHR 0x0A] @ ''Status: '' @
                      NumberToString (Finite (of_int (status r))) @ detail)))
      | None \<Rightarrow>
          if req then
            Inr (error_result (''Data.gov API error: '' @ msg @
                   [CHR 0x0A] @ ''No response received from the server.''))
          else Inr (error_result (''Data.gov API error: '' @ msg)))"
| "handleAxiosError (OtherError s) =
     Inr (error_result (''An unexpected error occurred: '' @ s))"

definition success_result :: "json \<Rightarrow> tool_result" where
  "success_result d =
     \<lparr>content = [\<lparr>ctype = ''text'', ctext = JSON_stringify d\<rparr>], isError = None\<rparr>"

text \<open>
  The four tools.  Each makes one GET through the instance created with
  \<^verbatim>\<open>baseURL: BASE_URL\<close>; \<open>net\<close> is the remote side, answering a request with a response
  or a failure.
\<close>

definition api_get ::
  "(request_config \<Rightarrow> json outcome) \<Rightarrow> string \<Rightarrow> jsval \<Rightarrow>
   request_config list \<times> (thrown + tool_result)" where
  "api_get net path ps =
     (let req = \<lparr>baseURL = Some BASE_URL, url = path, params = ps, responseType = None\<rparr> in
      ([req],
       case net req of
         Resolved r \<Rightarrow> Inr (success_result (data r))
       | Rejected e \<Rightarrow> handleAxiosError (map_failure Json e)))"

definition packageSearch ::
  "(request_config \<Rightarrow> json outcome) \<Rightarrow> jsval \<Rightarrow> request_config list \<times> (thrown + tool_result)"
  where "packageSearch net args = api_get net ''/action/package_search'' args"

definition packageShow ::
  "(request_config \<Rightarrow> json outcome) \<Rightarrow> jsval \<Rightarrow> request_config list \<times> (thrown + tool_result)"
  where
  "packageShow net args =
     api_get net ''/action/package_show''
       (Val (JObj (case js_get args ''id'' of Val v \<Rightarrow> [(''id'', v)] | _ \<Rightarrow> [])))"

definition groupList ::
  "(request_config \<Rightarrow> json outcome) \<Rightarrow> jsval \<Rightarrow> request_config list \<times> (thrown + tool_result)"
  where "groupList net args = api_get net ''/action/group_list'' args"

definition tagList ::
  "(request_config \<Rightarrow> json outcome) \<Rightarrow> jsval \<Rightarrow> request_config list \<times> (thrown + tool_result)"
  where "tagList net args = api_get net ''/action/tag_list'' args"

text \<open>
  The function registered for \<^verbatim>\<open>CallToolRequestSchema\<close>: the \<^verbatim>\<open>switch\<close> on
  \<^verbatim>\<open>request.params.name\<close>, given that name and \<^verbatim>\<open>request.params.arguments\<close>.  The SDK
  calls it on the requests that the schema accepts, see \<open>tools_call\<close> below.
\<close>

definition call_tool ::
  "(request_config \<Rightarrow> json outcome) \<Rightarrow> string \<Rightarrow> jsval \<Rightarrow>
   request_config list \<times> (thrown + tool_result)" where
  "call_tool net name args =
     (if name = ''package_search'' then
        if \<not> isValidPackageSearchArgs args then
          ([], Inl (McpError InvalidParams ''Invalid package_search arguments''))
        else packageSearch net args
      else if name = ''package_show'' then
        if \<not> isValidPackageShowArgs args then
          ([], Inl (McpError InvalidParams ''Invalid package_show arguments''))
        else packageShow net args
      else if name = ''group_list'' then
        if \<not> isValidGroupListArgs args then
          ([], Inl (McpError InvalidParams ''Invalid group_list arguments''))
        else groupList net args
      else if name = ''tag_list'' then
        if \<not> isValidTagListArgs args then
          ([], Inl (McpError InvalidParams ''Invalid tag_list arguments''))
        else tagList net args
      else ([], Inl (McpError MethodNotFound (''Unknown tool: '' @ name))))"

subsection \<open>A \<^verbatim>\<open>tools/call\<close> request\<close>

text \<open>
  \<^verbatim>\<open>setRequestHandler(CallToolRequestSchema, handler)\<close> of the SDK registers
  \<^verbatim>\<open>request => handler(CallToolRequestSchema.parse(request))\<close>.  The schema has
  \<^verbatim>\<open>name: z.string()\<close> and \<^verbatim>\<open>arguments: z.optional(z.record(z.unknown()))\<close>: the
  arguments are absent or an object that is no array and not \<^verbatim>\<open>null\<close>.  On anything
  else \<^verbatim>\<open>parse\<close> throws a \<^verbatim>\<open>ZodError\<close> and the handler is not called.
\<close>

fun is_record :: "jsval \<Rightarrow> bool" where
  "is_record (Val (JObj kvs)) = True"
| "is_record v = False"

definition CallToolRequestSchema :: "jsval \<Rightarrow> bool" where
  "CallToolRequestSchema arguments \<longleftrightarrow> arguments = Undefined \<or> is_record arguments"

definition tools_call ::
  "(request_config \<Rightarrow> json outcome) \<Rightarrow> string \<Rightarrow> jsval \<Rightarrow>
   request_config list \<times> (thrown + tool_result)" where
  "tools_call net name arguments =
     (if CallToolRequestSchema arguments then call_tool net name arguments
      else ([], Inl ZodError))"

text \<open>
  The code of the JSON-RPC error that answers a request whose handling threw: the
  \<^verbatim>\<open>code\<close> of the error when it is a safe integer, as that of an \<^verbatim>\<open>McpError\<close> is, and
  \<^verbatim>\<open>ErrorCode.InternalError\<close> otherwise.
\<close>

fun jsonrpc_code :: "thrown \<Rightarrow> int" where
  "jsonrpc_code (McpError InvalidRequest msg) = - 32600"
| "jsonrpc_code (McpError MethodNotFound msg) = - 32601"
| "jsonrpc_code (McpError InvalidParams msg) = - 32602"
| "jsonrpc_code e = - 32603"

section \<open>The tool catalog\<close>

record property_schema =
  ptype :: string
  pdescription :: string

record input_schema =
  stype :: string
  properties :: "(string \<times> property_schema) list"
  required :: "string list option"

record tool =
  name :: string
  description :: string
  inputSchema :: input_schema

definition package_search_tool :: tool where
  "package_search_tool =
     \<lparr>name = ''package_search'',
      description = ''Search for packages (datasets) on Data.gov'',
      inputSchema = \<lparr>stype = ''object'',
        properties =
          [(''q'', \<lparr>ptype = ''string'', pdescription = ''Search query''\<rparr>),
           (''sort'', \<lparr>ptype = ''string'',
              pdescription = ''Sort order (e.g., '' @ [CHR 0x22] @ ''score desc, name asc'' @
                             [CHR 0x22] @ '')''\<rparr>),
           (''rows'', \<lparr>ptype = ''number'', pdescription = ''Number of results per page''\<rparr>),
           (''start'', \<lparr>ptype = ''number'', pdescription = ''Starting offset for results''\<rparr>)],
        required = None\<rparr>\<rparr>"

definition package_show_tool :: tool where
  "package_show_tool =
     \<lparr>name = ''package_show'',
      description = ''Get details for a specific package (dataset)'',
      inputSchema = \<lparr>stype = ''object'',
        properties = [(''id'', \<lparr>ptype = ''string'', pdescription = ''Package ID or name''\<rparr>)],
        required = Some [''id'']\<rparr>\<rparr>"

definition group_list_tool :: tool where
  "group_list_tool =
     \<lparr>name = ''group_list'',
      description = ''List groups on Data.gov'',
      inputSchema = \<lparr>stype = ''object'',
        properties =
          [(''order_by'', \<lparr>ptype = ''string'', pdescription = ''Field to order by''\<rparr>),
           (''limit'', \<lparr>ptype = ''number'', pdescription = ''Maximum number of results''\<rparr>),
           (''offset'', \<lparr>ptype = ''number'', pdescription = ''Offset for results''\<rparr>),
           (''all_fields'', \<lparr>ptype = ''boolean'', pdescription = ''Return all fields''\<rparr>)],
        required = None\<rparr>\<rparr>"

definition tag_list_tool :: tool where
  "tag_list_tool =
     \<lparr>name = ''tag_list'',
      description = ''List tags on Data.gov'',
      inputSchema = \<lparr>stype = ''object'',
        properties =
          [(''query'', \<lparr>ptype = ''string'', pdescription = ''Search query for tags''\<rparr>),
           (''all_fields'', \<lparr>ptype = ''boolean'', pdescription = ''Return all fields''\<rparr>)],
        required = None\<rparr>\<rparr>"

definition tools :: "tool list" where
  "tools = [package_search_tool, package_show_tool, group_list_tool, tag_list_tool]"

text \<open>
  The \<^verbatim>\<open>ListToolsRequestSchema\<close> handler ignores its request and makes no GET.
\<close>

definition list_tools :: "'r \<Rightarrow> request_config list \<times> (thrown + tool list)" where
  "list_tools r = ([], Inr tools)"

section \<open>The resource handler\<close>

subsection \<open>The URI pattern\<close>

text \<open>
  \<^verbatim>\<open>/^datagov:\/\/resource\/(.+)$/\<close> has no flags: \<^verbatim>\<open>.\<close> matches every character but a
  line terminator (LF, CR, U+2028 and U+2029, the last two being the bytes E2 80 A8 and
  E2 80 A9), and \<^verbatim>\<open>$\<close> matches at the end of the input only.  So the URI matches when it
  starts with the prefix and the rest is non-empty and free of line terminators; the
  group is the rest.
\<close>

fun has_line_terminator :: "string \<Rightarrow> bool" where
  "has_line_terminator [] = False"
| "has_line_terminator (c # cs) =
     (c = CHR 0x0A \<or> c = CHR 0x0D \<or>
      (c = CHR 0xE2 \<and> (take 2 cs = [CHR 0x80, CHR 0xA8] \<or> take 2 cs = [CHR 0x80, CHR 0xA9])) \<or>
      has_line_terminator cs)"

definition match_resource_uri :: "string \<Rightarrow> string option" where
  "match_resource_uri u =
     (let p = ''datagov://resource/'' in
      if take (length p) u = p \<and> drop (length p) u \<noteq> [] \<and>
         \<not> has_line_terminator (drop (length p) u)
      then Some (drop (length p) u) else None)"

subsection \<open>\<^verbatim>\<open>decodeURIComponent\<close>\<close>

definition hex_value :: "char \<Rightarrow> nat option" where
  "hex_value c =
     (let n = (of_char c :: nat) in
      if 48 \<le> n \<and> n \<le> 57 then Some (n - 48)
      else if 65 \<le> n \<and> n \<le> 70 then Some (n - 55)
      else if 97 \<le> n \<and> n \<le> 102 then Some (n - 87)
      else None)"

fun ParseHexOctet :: "string \<Rightarrow> nat option" where
  "ParseHexOctet (h # l # cs) =
     (case hex_value h of
        None \<Rightarrow> None
      | Some a \<Rightarrow> (case hex_value l of None \<Rightarrow> None | Some b \<Rightarrow> Some (16 * a + b)))"
| "ParseHexOctet cs = None"

text \<open>The number of leading 1 bits of an octet; 5 stands for five or more.\<close>

definition leading_ones :: "nat \<Rightarrow> nat" where
  "leading_ones b =
     (if b < 0x80 then 0 else if b < 0xC0 then 1 else if b < 0xE0 then 2
      else if b < 0xF0 then 3 else if b < 0xF8 then 4 else 5)"

text \<open>The \<open>j\<close> escaped continuation octets that follow the first octet of a sequence.\<close>

fun continuation_octets :: "nat \<Rightarrow> string \<Rightarrow> nat list option" where
  "continuation_octets 0 cs = Some []"
| "continuation_octets (Suc j) (p # h # l # cs) =
     (if p \<noteq> CHR ''%'' then None
      else (case ParseHexOctet [h, l] of
              None \<Rightarrow> None
            | Some b \<Rightarrow>
                (case continuation_octets j cs of None \<Rightarrow> None | Some bs \<Rightarrow> Some (b # bs))))"
| "continuation_octets (Suc j) cs = None"

definition cont :: "nat \<Rightarrow> bool" where
  "cont b \<longleftrightarrow> 0x80 \<le> b \<and> b \<le> 0xBF"

text \<open>The well-formed UTF-8 sequences of more than one octet (Unicode, table 3-7).\<close>

fun valid_utf8 :: "nat list \<Rightarrow> bool" where
  "valid_utf8 [a, b] = (0xC2 \<le> a \<and> a \<le> 0xDF \<and> cont b)"
| "valid_utf8 [a, b, c] =
     ((a = 0xE0 \<and> 0xA0 \<le> b \<and> b \<le> 0xBF \<or>
       0xE1 \<le> a \<and> a \<le> 0xEC \<and> cont b \<or>
       a = 0xED \<and> 0x80 \<le> b \<and> b \<le> 0x9F \<or>
       0xEE \<le> a \<and> a \<le> 0xEF \<and> cont b) \<and> cont c)"
| "valid_utf8 [a, b, c, d] =
     ((a = 0xF0 \<and> 0x90 \<le> b \<and> b \<le> 0xBF \<or>
       0xF1 \<le> a \<and> a \<le> 0xF3 \<and> cont b \<or>
       a = 0xF4 \<and> 0x80 \<le> b \<and> b \<le> 0x8F) \<and> cont c \<and> cont d)"
| "valid_utf8 bs = False"

text \<open>
  \<^verbatim>\<open>Decode\<close> of ECMA-262 with an empty preserve set.  A character other than \<^verbatim>\<open>%\<close> is
  copied.  An escaped octet below 0x80 is that character; otherwise the octet starts a
  sequence of two to four escaped octets, which must be well-formed UTF-8 and whose
  character is, in this model of strings, those octets.  Any other input throws a
  \<^verbatim>\<open>URIError\<close>.
\<close>

fun Decode :: "string \<Rightarrow> thrown + string" where
  "Decode [] = Inr []"
| "Decode (c # cs) =
     (if c \<noteq> CHR ''%'' then
        (case Decode cs of Inl e \<Rightarrow> Inl e | Inr r \<Rightarrow> Inr (c # r))
      else
        (case ParseHexOctet cs of
           None \<Rightarrow> Inl URIError
         | Some b \<Rightarrow>
             if leading_ones b = 0 then
               (case Decode (drop 2 cs) of Inl e \<Rightarrow> Inl e | Inr r \<Rightarrow> Inr (char_of b # r))
             else if leading_ones b = 1 \<or> leading_ones b > 4 then Inl URIError
             else
               (case continuation_octets (leading_ones b - 1) (drop 2 cs) of
                  None \<Rightarrow> Inl URIError
                | Some octets \<Rightarrow>
                    if \<not> valid_utf8 (b # octets) then Inl URIError
                    else
                      (case Decode (drop (2 + 3 * (leading_ones b - 1)) cs) of
                         Inl e \<Rightarrow> Inl e
                       | Inr r \<Rightarrow> Inr (map char_of (b # octets) @ r)))))"

definition decodeURIComponent :: "string \<Rightarrow> thrown + string" where
  "decodeURIComponent s = Decode s"

subsection \<open>Base64\<close>

definition b64_char :: "nat \<Rightarrow> char" where
  "b64_char i =
     (if i < 26 then char_of (65 + i)
      else if i < 52 then char_of (71 + i)
      else if i < 62 then char_of (i - 4)
      else if i = 62 then CHR ''+'' else CHR ''/'')"

text \<open>\<^verbatim>\<open>buffer.toString('base64')\<close>: the standard alphabet, padded with \<^verbatim>\<open>=\<close>.\<close>

fun base64 :: "bytes \<Rightarrow> string" where
  "base64 [] = []"
| "base64 [a] =
     [b64_char (unat a div 4), b64_char (unat a mod 4 * 16), CHR ''='', CHR ''='']"
| "base64 [a, b] =
     [b64_char (unat a div 4), b64_char (unat a mod 4 * 16 + unat b div 16),
      b64_char (unat b mod 16 * 4), CHR ''='']"
| "base64 (a # b # c # bs) =
     [b64_char (unat a div 4), b64_char (unat a mod 4 * 16 + unat b div 16),
      b64_char (unat b mod 16 * 4 + unat c div 64), b64_char (unat c mod 64)] @ base64 bs"

text \<open>The reader's side: base64 decoding (RFC 4648), four characters at a time.\<close>

definition b64_index :: "char \<Rightarrow> nat option" where
  "b64_index c =
     (let n = (of_char c :: nat) in
      if 65 \<le> n \<and> n \<le> 90 then Some (n - 65)
      else if 97 \<le> n \<and> n \<le> 122 then Some (n - 71)
      else if 48 \<le> n \<and> n \<le> 57 then Some (n + 4)
      else if c = CHR ''+'' then Some 62
      else if c = CHR ''/'' then Some 63
      else None)"

fun indices :: "string \<Rightarrow> nat list option" where
  "indices [] = Some []"
| "indices (c # cs) =
     (case b64_index c of
        None \<Rightarrow> None
      | Some i \<Rightarrow> (case indices cs of None \<Rightarrow> None | Some is \<Rightarrow> Some (i # is)))"

fun base64_decode :: "string \<Rightarrow> bytes option" where
  "base64_decode [] = Some []"
| "base64_decode (c1 # c2 # c3 # c4 # cs) =
     (if c4 = CHR ''='' then
        if cs \<noteq> [] then None
        else if c3 = CHR ''='' then
          (case indices [c1, c2] of
             Some [i, j] \<Rightarrow> Some [of_nat (i * 4 + j div 16)]
           | _ \<Rightarrow> None)
        else
          (case indices [c1, c2, c3] of
             Some [i, j, k] \<Rightarrow> Some [of_nat (i * 4 + j div 16), of_nat (j mod 16 * 16 + k div 4)]
           | _ \<Rightarrow> None)
      else
        (case indices [c1, c2, c3, c4] of
           Some [i, j, k, l] \<Rightarrow>
             (case base64_decode cs of
                None \<Rightarrow> None
              | Some bs \<Rightarrow>
                  Some (of_nat (i * 4 + j div 16) # of_nat (j mod 16 * 16 + k div 4) #
                        of_nat (k mod 4 * 64 + l) # bs))
         | _ \<Rightarrow> None))"
| "base64_decode cs = None"

subsection \<open>The \<^verbatim>\<open>ReadResourceRequestSchema\<close> handler\<close>

record resource_content =
  uri :: string
  rtext :: string

text \<open>
  The GET asks for an \<^verbatim>\<open>arraybuffer\<close>, so the body is a \<^verbatim>\<open>Buffer\<close> and
  \<^verbatim>\<open>Buffer.from(response.data, 'binary')\<close> copies it.  A missing header reads as
  \<^verbatim>\<open>undefined\<close> in the template literal.  In the \<^verbatim>\<open>catch\<close> block the result of
  \<^verbatim>\<open>handleAxiosError\<close> is dropped and the caught error is thrown again.
\<close>

definition read_resource ::
  "(request_config \<Rightarrow> bytes outcome) \<Rightarrow> string \<Rightarrow>
   request_config list \<times> (thrown + resource_content list)" where
  "read_resource net u =
     (case match_resource_uri u of
        None \<Rightarrow> ([], Inl (McpError InvalidRequest (''Invalid URI format: '' @ u)))
      | Some enc \<Rightarrow>
          (case decodeURIComponent enc of
             Inl e \<Rightarrow> ([], Inl e)
           | Inr target \<Rightarrow>
               (let req = \<lparr>baseURL = None, url = target, params = Undefined,
                           responseType = Some ''arraybuffer''\<rparr> in
                ([req],
                 case net req of
                   Resolved r \<Rightarrow>
                     Inr [\<lparr>uri = u,
                           rtext = ''data:'' @
                             (case map_of (headers r) ''content-type'' of
                                None \<Rightarrow> ''undefined'' | Some ct \<Rightarrow> ct) @
                             '';base64,'' @ base64 (data r)\<rparr>]
                 | Rejected e \<Rightarrow>
                     (case handleAxiosError (map_failure Buffer e) of
                        Inl t \<Rightarrow> Inl t
                      | Inr summary \<Rightarrow> Inl (Rethrown e))))))"

section \<open>\<^verbatim>\<open>JSON.parse\<close>\<close>

text \<open>
  The reader of a tool's text block parses it with \<^verbatim>\<open>JSON.parse\<close>: the JSON grammar
  (ECMA-404) with white space between the tokens, and the value built as ECMA-262
  builds it.  The result is \<open>None\<close> for a \<^verbatim>\<open>SyntaxError\<close>.
\<close>

definition is_ws :: "char \<Rightarrow> bool" where
  "is_ws c \<longleftrightarrow> c = CHR 0x20 \<or> c = CHR 0x09 \<or> c = CHR 0x0A \<or> c = CHR 0x0D"

definition skip_ws :: "string \<Rightarrow> string" where
  "skip_ws s = dropWhile is_ws s"

definition is_digit :: "char \<Rightarrow> bool" where
  "is_digit c \<longleftrightarrow> 48 \<le> (of_char c :: nat) \<and> (of_char c :: nat) \<le> 57"

definition digit_value :: "char \<Rightarrow> nat" where
  "digit_value c = of_char c - 48"

subsection \<open>String literals\<close>

fun hex4 :: "string \<Rightarrow> nat option" where
  "hex4 (a # b # c # d # cs) =
     (case ParseHexOctet [a, b] of
        None \<Rightarrow> None
      | Some hi \<Rightarrow> (case ParseHexOctet [c, d] of None \<Rightarrow> None | Some lo \<Rightarrow> Some (256 * hi + lo)))"
| "hex4 cs = None"

definition unescape :: "char \<Rightarrow> char option" where
  "unescape e =
     (if e = CHR 0x22 then Some (CHR 0x22)
      else if e = CHR 0x5C then Some (CHR 0x5C)
      else if e = CHR ''/'' then Some (CHR ''/'')
      else if e = CHR ''b'' then Some (CHR 0x08)
      else if e = CHR ''f'' then Some (CHR 0x0C)
      else if e = CHR ''n'' then Some (CHR 0x0A)
      else if e = CHR ''r'' then Some (CHR 0x0D)
      else if e = CHR ''t'' then Some (CHR 0x09)
      else None)"

text \<open>The UTF-8 bytes of a code point.\<close>

definition utf8 :: "nat \<Rightarrow> string" where
  "utf8 n =
     (if n < 0x80 then [char_of n]
      else if n < 0x800 then [char_of (0xC0 + n div 64), char_of (0x80 + n mod 64)]
      else if n < 0x10000 then
        [char_of (0xE0 + n div 4096), char_of (0x80 + n div 64 mod 64), char_of (0x80 + n mod 64)]
      else
        [char_of (0xF0 + n div 262144), char_of (0x80 + n div 4096 mod 64),
         char_of (0x80 + n div 64 mod 64), char_of (0x80 + n mod 64)])"

definition prepend :: "string \<Rightarrow> (string \<times> string) option \<Rightarrow> (string \<times> string) option" where
  "prepend p r = (case r of None \<Rightarrow> None | Some (s, rest) \<Rightarrow> Some (p @ s, rest))"

text \<open>
  The characters of a string literal after its opening quote, up to the closing
  quote, and the rest of the text.  An escape \<^verbatim>\<open>\uXXXX\<close> gives the bytes of its code
  point; the two halves of a surrogate pair give one code point, and half a pair has
  no bytes (\<open>None\<close>).
\<close>

fun parse_chars :: "string \<Rightarrow> (string \<times> string) option" where
  "parse_chars [] = None"
| "parse_chars (c # cs) =
     (if c = CHR 0x22 then Some ([], cs)
      else if c = CHR 0x5C then
        (case cs of
           [] \<Rightarrow> None
         | e # es \<Rightarrow>
             if e = CHR ''u'' then
               (case hex4 es of
                  None \<Rightarrow> None
                | Some n \<Rightarrow>
                    if 0xD800 \<le> n \<and> n \<le> 0xDBFF then
                      (if take 2 (drop 4 es) = [CHR 0x5C, CHR ''u''] then
                         (case hex4 (drop 6 es) of
                            None \<Rightarrow> None
                          | Some m \<Rightarrow>
                              if 0xDC00 \<le> m \<and> m \<le> 0xDFFF then
                                prepend (utf8 (0x10000 + (n - 0xD800) * 0x400 + (m - 0xDC00)))
                                  (parse_chars (drop 10 es))
                              else None)
                       else None)
                    else if 0xDC00 \<le> n \<and> n \<le> 0xDFFF then None
                    else prepend (utf8 n) (parse_chars (drop 4 es)))
             else
               (case unescape e of
                  None \<Rightarrow> None
                | Some ch \<Rightarrow> prepend [ch] (parse_chars es)))
      else if (of_char c :: nat) < 0x20 then None
      else prepend [c] (parse_chars cs))"

subsection \<open>Numbers\<close>

fun dec_value :: "string \<Rightarrow> nat \<Rightarrow> nat" where
  "dec_value [] acc = acc"
| "dec_value (c # cs) acc = dec_value cs (10 * acc + digit_value c)"

fun take_digits :: "string \<Rightarrow> nat \<Rightarrow> nat \<times> string" where
  "take_digits [] acc = (acc, [])"
| "take_digits (c # cs) acc =
     (if is_digit c then take_digits cs (10 * acc + digit_value c) else (acc, c # cs))"

text \<open>The integer part: \<^verbatim>\<open>0\<close>, or a non-zero digit and more digits.\<close>

definition parse_int :: "string \<Rightarrow> (nat \<times> string) option" where
  "parse_int s =
     (case s of
        [] \<Rightarrow> None
      | c # cs \<Rightarrow>
          if c = CHR ''0'' then Some (0, cs)
          else if is_digit c then Some (take_digits (c # cs) 0)
          else None)"

text \<open>The fraction, if there is one: a point and one digit or more.\<close>

definition parse_fraction :: "string \<Rightarrow> (string \<times> string) option" where
  "parse_fraction r =
     (if take 1 r = ''.'' then
        (if takeWhile is_digit (drop 1 r) = [] then None
         else Some (takeWhile is_digit (drop 1 r), dropWhile is_digit (drop 1 r)))
      else Some ([], r))"

text \<open>The exponent, if there is one: \<^verbatim>\<open>e\<close> or \<^verbatim>\<open>E\<close>, a sign or none, and one digit or more.\<close>

definition parse_exponent :: "string \<Rightarrow> (int \<times> string) option" where
  "parse_exponent r =
     (if take 1 r = ''e'' \<or> take 1 r = ''E'' then
        (let ds = (if take 1 (drop 1 r) = ''+'' \<or> take 1 (drop 1 r) = ''-''
                   then drop 2 r else drop 1 r)
         in if takeWhile is_digit ds = [] then None
            else Some ((if take 1 (drop 1 r) = ''-'' then - 1 else 1) *
                         int (dec_value (takeWhile is_digit ds) 0),
                       dropWhile is_digit ds))
      else Some (0, r))"

text \<open>
  The mathematical value of a numeral without sign: the integer that the digits of
  the integer part and of the fraction write, times the power of ten of the exponent
  less the length of the fraction.
\<close>

definition parse_unsigned :: "string \<Rightarrow> (rat \<times> string) option" where
  "parse_unsigned s =
     (case parse_int s of
        None \<Rightarrow> None
      | Some (i, r) \<Rightarrow>
          (case parse_fraction r of
             None \<Rightarrow> None
           | Some (fs, r') \<Rightarrow>
               (case parse_exponent r' of
                  None \<Rightarrow> None
                | Some (ex, r'') \<Rightarrow>
                    Some (of_nat (dec_value fs i) * 10 powi (ex - int (length fs)), r''))))"

text \<open>
  The number of a numeral: the Number value of its mathematical value, negated after
  a minus sign; \<^verbatim>\<open>-0\<close> is the negative zero.
\<close>

definition parse_number :: "string \<Rightarrow> (json \<times> string) option" where
  "parse_number s =
     (case s of
        [] \<Rightarrow> None
      | c # cs \<Rightarrow>
          if c = CHR ''-'' then
            (case parse_unsigned cs of
               None \<Rightarrow> None
             | Some (q, r) \<Rightarrow> Some (JNum (negate (number_value q)), r))
          else
            (case parse_unsigned s of
               None \<Rightarrow> None
             | Some (q, r) \<Rightarrow> Some (JNum (number_value q), r)))"

subsection \<open>Objects\<close>

text \<open>
  An object keeps its properties in property order: the array indices (the canonical
  numerals of the integers below \<open>2\<^sup>3\<^sup>2 - 1\<close>) ascending, then the other names in the
  order of their creation.  \<^verbatim>\<open>CreateDataProperty\<close> replaces the value of a name the
  object has, and otherwise adds the property at its place in that order.
\<close>

definition index_of :: "string \<Rightarrow> nat option" where
  "index_of k =
     (if k = [] \<or> \<not> list_all is_digit k then None
      else if digits (dec_value k 0) = k \<and> dec_value k 0 < 4294967295
      then Some (dec_value k 0) else None)"

fun insert_index :: "nat \<Rightarrow> string \<Rightarrow> json \<Rightarrow> (string \<times> json) list \<Rightarrow> (string \<times> json) list" where
  "insert_index i k v [] = [(k, v)]"
| "insert_index i k v (p # ps) =
     (case index_of (fst p) of
        None \<Rightarrow> (k, v) # p # ps
      | Some j \<Rightarrow> if j < i then p # insert_index i k v ps else (k, v) # p # ps)"

definition CreateDataProperty ::
  "(string \<times> json) list \<Rightarrow> string \<times> json \<Rightarrow> (string \<times> json) list" where
  "CreateDataProperty obj kv =
     (if fst kv \<in> fst ` set obj then map (\<lambda>p. if fst p = fst kv then kv else p) obj
      else (case index_of (fst kv) of
              None \<Rightarrow> obj @ [kv]
            | Some i \<Rightarrow> insert_index i (fst kv) (snd kv) obj))"

definition make_object :: "(string \<times> json) list \<Rightarrow> json" where
  "make_object members = JObj (foldl CreateDataProperty [] members)"

subsection \<open>Values\<close>

text \<open>
  The first argument bounds the depth of the calls; \<^verbatim>\<open>JSON_parse\<close> starts with more
  than the length of the text, which is enough for every text that is JSON.
\<close>

fun parse_value :: "nat \<Rightarrow> string \<Rightarrow> (json \<times> string) option"
  and parse_elements :: "nat \<Rightarrow> string \<Rightarrow> (json list \<times> string) option"
  and parse_members :: "nat \<Rightarrow> string \<Rightarrow> ((string \<times> json) list \<times> string) option" where
  "parse_value 0 s = None"
| "parse_value (Suc n) s =
     (case skip_ws s of
        [] \<Rightarrow> None
      | c # cs \<Rightarrow>
          if c = CHR ''{'' then
            (if take 1 (skip_ws cs) = ''}'' then Some (JObj [], drop 1 (skip_ws cs))
             else (case parse_members n cs of
                     None \<Rightarrow> None
                   | Some (members, r) \<Rightarrow> Some (make_object members, r)))
          else if c = CHR ''['' then
            (if take 1 (skip_ws cs) = '']'' then Some (JArr [], drop 1 (skip_ws cs))
             else (case parse_elements n cs of
                     None \<Rightarrow> None
                   | Some (elements, r) \<Rightarrow> Some (JArr elements, r)))
          else if c = CHR 0x22 then
            (case parse_chars cs of None \<Rightarrow> None | Some (str, r) \<Rightarrow> Some (JStr str, r))
          else if c = CHR ''-'' \<or> is_digit c then parse_number (c # cs)
          else if take 4 (c # cs) = ''null'' then Some (JNull, drop 4 (c # cs))
          else if take 4 (c # cs) = ''true'' then Some (JBool True, drop 4 (c # cs))
          else if take 5 (c # cs) = ''false'' then Some (JBool False, drop 5 (c # cs))
          else None)"
| "parse_elements 0 s = None"
| "parse_elements (Suc n) s =
     (case parse_value n s of
        None \<Rightarrow> None
      | Some (v, r) \<Rightarrow>
          if take 1 (skip_ws r) = '','' then
            (case parse_elements n (drop 1 (skip_ws r)) of
               None \<Rightarrow> None
             | Some (vs, r') \<Rightarrow> Some (v # vs, r'))
          else if take 1 (skip_ws r) = '']'' then Some ([v], drop 1 (skip_ws r))
          else None)"
| "parse_members 0 s = None"
| "parse_members (Suc n) s =
     (if take 1 (skip_ws s) \<noteq> [CHR 0x22] then None
      else (case parse_chars (drop 1 (skip_ws s)) of
              None \<Rightarrow> None
            | Some (k, r) \<Rightarrow>
                if take 1 (skip_ws r) \<noteq> '':'' then None
                else (case parse_value n (drop 1 (skip_ws r)) of
                        None \<Rightarrow> None
                      | Some (v, r') \<Rightarrow>
                          if take 1 (skip_ws r') = '','' then
                            (case parse_members n (drop 1 (skip_ws r')) of
                               None \<Rightarrow> None
                             | Some (kvs, r'') \<Rightarrow> Some ((k, v) # kvs, r''))
                          else if take 1 (skip_ws r') = ''}'' then
                            Some ([(k, v)], drop 1 (skip_ws r'))
                          else None)))"

definition JSON_parse :: "string \<Rightarrow> json option" where
  "JSON_parse s =
     (case parse_value (Suc (length s)) s of
        None \<Rightarrow> None
      | Some (v, r) \<Rightarrow> if skip_ws r = [] then Some v else None)"

subsection \<open>The values \<^verbatim>\<open>JSON.parse\<close> returns\<close>

text \<open>
  The names of an object in property order: an array index is never preceded by a
  name that is no index, nor by a larger or equal index.
\<close>

fun ordered_keys :: "string list \<Rightarrow> bool" where
  "ordered_keys (k # l # ks) =
     ((case index_of l of
         None \<Rightarrow> True
       | Some j \<Rightarrow> (case index_of k of None \<Rightarrow> False | Some i \<Rightarrow> i < j)) \<and>
      ordered_keys (l # ks))"
| "ordered_keys ks = True"

text \<open>
  A value as \<^verbatim>\<open>JSON.parse\<close> builds it: every number is a double, \<^verbatim>\<open>-0\<close> or an infinity,
  and every object has each name once, in property order.
\<close>

fun json_value :: "json \<Rightarrow> bool"
  and json_values :: "json list \<Rightarrow> bool"
  and json_members :: "(string \<times> json) list \<Rightarrow> bool" where
  "json_value JNull = True"
| "json_value (JBool b) = True"
| "json_value (JNum n) = is_number n"
| "json_value (JStr s) = True"
| "json_value (JArr xs) = json_values xs"
| "json_value (JObj kvs) =
     (distinct (map fst kvs) \<and> ordered_keys (map fst kvs) \<and> json_members kvs)"
| "json_values [] = True"
| "json_values (x # xs) = (json_value x \<and> json_values xs)"
| "json_members [] = True"
| "json_members ((k, v) # kvs) = (json_value v \<and> json_members kvs)"

text \<open>
  \<^verbatim>\<open>JSON.stringify\<close> writes \<^verbatim>\<open>null\<close> for an infinity and \<^verbatim>\<open>0\<close> for \<^verbatim>\<open>-0\<close>.  A value is
  plain when it has no such number.
\<close>

fun plain :: "json \<Rightarrow> bool"
  and plain_values :: "json list \<Rightarrow> bool"
  and plain_members :: "(string \<times> json) list \<Rightarrow> bool" where
  "plain (JNum n) = (is_finite n \<and> n \<noteq> NegZero)"
| "plain (JArr xs) = plain_values xs"
| "plain (JObj kvs) = plain_members kvs"
| "plain v = True"
| "plain_values [] = True"
| "plain_values (x # xs) = (plain x \<and> plain_values xs)"
| "plain_members [] = True"
| "plain_members ((k, v) # kvs) = (plain v \<and> plain_members kvs)"

text \<open>The two together: a plain value as \<^verbatim>\<open>JSON.parse\<close> builds it.\<close>

fun exact :: "json \<Rightarrow> bool"
  and exact_values :: "json list \<Rightarrow> bool"
  and exact_members :: "(string \<times> json) list \<Rightarrow> bool" where
  "exact JNull = True"
| "exact (JBool b) = True"
| "exact (JNum n) = (case n of Finite q \<Rightarrow> is_double q | _ \<Rightarrow> False)"
| "exact (JStr s) = True"
| "exact (JArr xs) = exact_values xs"
| "exact (JObj kvs) =
     (distinct (map fst kvs) \<and> ordered_keys (map fst kvs) \<and> exact_members kvs)"
| "exact_values [] = True"
| "exact_values (x # xs) = (exact x \<and> exact_values xs)"
| "exact_members [] = True"
| "exact_members ((k, v) # kvs) = (exact v \<and> exact_members kvs)"

text \<open>What may follow a number in a text: no digit, and no fraction or exponent.\<close>

definition delim :: "string \<Rightarrow> bool" where
  "delim r \<longleftrightarrow>
     (case r of
        [] \<Rightarrow> True
      | c # cs \<Rightarrow> \<not> is_digit c \<and> c \<noteq> CHR ''.'' \<and> c \<noteq> CHR ''e'' \<and> c \<noteq> CHR ''E'')"

text \<open>The depth of calls that parsing the text of a value takes.\<close>

fun need :: "json \<Rightarrow> nat"
  and need_elements :: "json list \<Rightarrow> nat"
  and need_members :: "(string \<times> json) list \<Rightarrow> nat" where
  "need (JArr xs) = Suc (need_elements xs)"
| "need (JObj kvs) = Suc (need_members kvs)"
| "need v = Suc 0"
| "need_elements [] = 0"
| "need_elements (x # xs) = Suc (max (need x) (need_elements xs))"
| "need_members [] = 0"
| "need_members ((k, v) # kvs) = Suc (max (need v) (need_members kvs))"

text \<open>What the steps of building an object keep.\<close>

definition object_ok :: "(string \<times> json) list \<Rightarrow> bool" where
  "object_ok obj \<longleftrightarrow>
     distinct (map fst obj) \<and> ordered_keys (map fst obj) \<and> json_members obj"

subsection \<open>An example body\<close>

text \<open>
  A body of the remote API, \<^verbatim>\<open>{"success": true, "result": ["a", 1.5, 1e21]}\<close>, and its
  text with two spaces for each level.
\<close>

definition example_body :: json where
  "example_body =
     JObj [(''success'', JBool True),
           (''result'', JArr [JStr ''a'', JNum (Finite (3 / 2)), JNum (Finite (10 ^ 21))])]"

definition example_text :: string where
  "example_text =
     ''{'' @ [CHR 0x0A] @
     ''  '' @ [CHR 0x22] @ ''success'' @ [CHR 0x22] @ '': true,'' @ [CHR 0x0A] @
     ''  '' @ [CHR 0x22] @ ''result'' @ [CHR 0x22] @ '': ['' @ [CHR 0x0A] @
     ''    '' @ [CHR 0x22] @ ''a'' @ [CHR 0x22] @ '','' @ [CHR 0x0A] @
     ''    1.5,'' @ [CHR 0x0A] @
     ''    1e+21'' @ [CHR 0x0A] @
     ''  ]'' @ [CHR 0x0A] @
     ''}''"

section \<open>Numbers by evaluation\<close>

text \<open>Equations that compute the functions on numbers, for the examples.\<close>

lemma bit_length_numeral:
  "bit_length 0 = 0"
  "bit_length 1 = 1"
  "bit_length (Suc 0) = 1"
  "bit_length (numeral Num.One) = 1"
  "bit_length (numeral (Num.Bit0 w)) = Suc (bit_length (numeral w))"
  "bit_length (numeral (Num.Bit1 w)) = Suc (bit_length (numeral w))"
proof -
  show 0: "bit_length 0 = 0"
    by (subst bit_length.simps) simp
  then show "bit_length 1 = 1" "bit_length (Suc 0) = 1" "bit_length (numeral Num.One) = 1"
    by (subst bit_length.simps, simp)+
  show "bit_length (numeral (Num.Bit0 w)) = Suc (bit_length (numeral w))"
    by (subst bit_length.simps) simp
  show "bit_length (numeral (Num.Bit1 w)) = Suc (bit_length (numeral w))"
    by (subst bit_length.simps) simp
qed

lemma floor_rat_numeral:
  "\<lfloor>numeral a / numeral b :: rat\<rfloor> = numeral a div numeral b"
  "\<lfloor>1 / numeral b :: rat\<rfloor> = 1 div numeral b"
  "\<lceil>numeral a / numeral b :: rat\<rceil> = - (- numeral a div numeral b)"
  "\<lceil>1 / numeral b :: rat\<rceil> = - (- 1 div numeral b)"
proof -
  show "\<lfloor>numeral a / numeral b :: rat\<rfloor> = numeral a div numeral b"
    by (metis floor_divide_of_int_eq of_int_numeral)
  show "\<lfloor>1 / numeral b :: rat\<rfloor> = 1 div numeral b"
    by (metis floor_divide_of_int_eq of_int_1 of_int_numeral)
  show "\<lceil>numeral a / numeral b :: rat\<rceil> = - (- numeral a div numeral b)"
    using ceiling_divide_eq_div [of "numeral a" "numeral b", where ?'a = rat] by simp
  show "\<lceil>1 / numeral b :: rat\<rceil> = - (- 1 div numeral b)"
    using ceiling_divide_eq_div [of 1 "numeral b", where ?'a = rat] by simp
qed

lemmas number_eval =
  number_value_def nearest_def exponent_def ilog2_def round_half_even_def
  bit_length_numeral floor_rat_numeral power_int_minus

lemmas digits_eval =
  shortest_digits_def magnitude_def digits_of_length_def candidate_def represents_def
  Let_def digits.simps digit_char_def upt_conv_Cons

lemma digit_char_eval:
  "digit_char 0 = CHR ''0''" "digit_char 1 = CHR ''1''" "digit_char 2 = CHR ''2''"
  "digit_char (Suc 0) = CHR ''1''"
  "digit_char 3 = CHR ''3''" "digit_char 4 = CHR ''4''" "digit_char 5 = CHR ''5''"
  "digit_char 6 = CHR ''6''" "digit_char 7 = CHR ''7''" "digit_char 8 = CHR ''8''"
  "digit_char 9 = CHR ''9''"
  by (simp_all add: digit_char_def char_of_eq_iff take_bit_eq_mod)

lemma replicate_numeral: "replicate (numeral k) x = x # replicate (pred_numeral k) x"
  by (simp add: numeral_eq_Suc)

lemmas string_eval =
  positive_string_def number_text_def exponent_part_def digits.simps digit_char_eval
  replicate_numeral

lemmas parse_number_eval =
  parse_number_def parse_unsigned_def parse_int_def parse_fraction_def parse_exponent_def
  is_digit_def digit_value_def

subsection \<open>Examples\<close>

text \<open>
  The numeral \<^verbatim>\<open>0.1\<close> reads as the double nearest to it, \<open>3602879701896397 / 2 ^ 55\<close>,
  which prints as \<^verbatim>\<open>0.1\<close>.  The double nearest to \<open>1 / 10 ^ 7\<close> prints in exponent form.
  The numeral \<^verbatim>\<open>-123456789012345678901\<close> reads as a multiple of \<open>2 ^ 14\<close>, which prints
  with seventeen digits and zeros.
\<close>

lemma one_tenth:
  "parse_number ''0.1'' = Some (JNum (Finite (3602879701896397 / 36028797018963968)), [])"
  "NumberToString (Finite (3602879701896397 / 36028797018963968)) = ''0.1''"
proof -
  show "parse_number ''0.1'' =
      Some (JNum (Finite (3602879701896397 / 36028797018963968)), [])"
    by (simp add: parse_number_eval number_eval)
  have "shortest_digits (3602879701896397 / 36028797018963968) = (0, 1, 1)"
    by (simp add: number_eval digits_eval)
  then show "NumberToString (Finite (3602879701896397 / 36028797018963968)) = ''0.1''"
    by (simp add: NumberToString.simps string_eval)
qed

lemma small_number:
  "NumberToString (Finite (944473296573929 / 9444732965739290427392)) = ''1e-7''"
proof -
  have "shortest_digits (944473296573929 / 9444732965739290427392) = (- 6, 1, 1)"
    by (simp add: number_eval digits_eval)
  then show ?thesis
    by (simp add: NumberToString.simps string_eval)
qed

lemma large_integer:
  "parse_number ''-123456789012345678901'' =
     Some (JNum (Finite (- 123456789012345683968)), [])"
  "NumberToString (Finite (- 123456789012345683968)) = ''-123456789012345680000''"
proof -
  show "parse_number ''-123456789012345678901'' =
      Some (JNum (Finite (- 123456789012345683968)), [])"
    by (simp add: parse_number_eval number_eval)
  have "shortest_digits 123456789012345683968 = (21, 17, 12345678901234568)"
    by (simp add: number_eval digits_eval)
  then show "NumberToString (Finite (- 123456789012345683968)) = ''-123456789012345680000''"
    by (simp add: NumberToString.simps string_eval)
qed

section \<open>Dispatch and validation\<close>

lemma invalid_args_rejected:
  "\<not> isValidPackageSearchArgs args \<Longrightarrow>
     call_tool net ''package_search'' args =
       ([], Inl (McpError InvalidParams ''Invalid package_search arguments''))"
  "\<not> isValidPackageShowArgs args \<Longrightarrow>
     call_tool net ''package_show'' args =
       ([], Inl (McpError InvalidParams ''Invalid package_show arguments''))"
  "\<not> isValidGroupListArgs args \<Longrightarrow>
     call_tool net ''group_list'' args =
       ([], Inl (McpError InvalidParams ''Invalid group_list arguments''))"
  "\<not> isValidTagListArgs args \<Longrightarrow>
     call_tool net ''tag_list'' args =
       ([], Inl (McpError InvalidParams ''Invalid tag_list arguments''))"
  by (simp_all add: call_tool_def)

lemma valid_call:
  "isValidPackageSearchArgs args \<Longrightarrow>
     call_tool net ''package_search'' args = packageSearch net args"
  "isValidPackageShowArgs args \<Longrightarrow> call_tool net ''package_show'' args = packageShow net args"
  "isValidGroupListArgs args \<Longrightarrow> call_tool net ''group_list'' args = groupList net args"
  "isValidTagListArgs args \<Longrightarrow> call_tool net ''tag_list'' args = tagList net args"
  by (simp_all add: call_tool_def)

lemma fst_api_get:
  "fst (api_get net path ps) =
     [\<lparr>baseURL = Some BASE_URL, url = path, params = ps, responseType = None\<rparr>]"
  by (simp add: api_get_def Let_def)

lemma call_made_valid:
  assumes "fst (call_tool net nm args) \<noteq> []"
  shows "nm = ''package_search'' \<and> isValidPackageSearchArgs args \<or>
         nm = ''package_show'' \<and> isValidPackageShowArgs args \<or>
         nm = ''group_list'' \<and> isValidGroupListArgs args \<or>
         nm = ''tag_list'' \<and> isValidTagListArgs args"
  using assms by (auto simp: call_tool_def split: if_splits)

lemma non_object_invalid:
  assumes "js_typeof args \<noteq> ''object'' \<or> args = Val JNull"
  shows "\<not> isValidPackageSearchArgs args" "\<not> isValidPackageShowArgs args"
    "\<not> isValidGroupListArgs args" "\<not> isValidTagListArgs args"
  using assms
  by (auto simp: isValidPackageSearchArgs_def isValidPackageShowArgs_def
      isValidGroupListArgs_def isValidTagListArgs_def)

lemma empty_bag_valid:
  "isValidPackageSearchArgs (Val (JObj []))" "isValidGroupListArgs (Val (JObj []))"
  "isValidTagListArgs (Val (JObj []))"
  by (simp_all add: isValidPackageSearchArgs_def isValidGroupListArgs_def
      isValidTagListArgs_def)

lemma tool_names:
  "name package_search_tool = ''package_search''" "name package_show_tool = ''package_show''"
  "name group_list_tool = ''group_list''" "name tag_list_tool = ''tag_list''"
  by (simp_all add: package_search_tool_def package_show_tool_def group_list_tool_def
      tag_list_tool_def)

lemma search_mistyped:
  assumes "(f, ps) \<in> set (properties (inputSchema package_search_tool))"
    and "map_of kvs f = Some v" and "js_typeof (Val v) \<noteq> ptype ps"
  shows "\<not> isValidPackageSearchArgs (Val (JObj kvs))"
  using assms by (auto simp: package_search_tool_def isValidPackageSearchArgs_def)

lemma show_mistyped:
  assumes "(f, ps) \<in> set (properties (inputSchema package_show_tool))"
    and "map_of kvs f = Some v" and "js_typeof (Val v) \<noteq> ptype ps"
  shows "\<not> isValidPackageShowArgs (Val (JObj kvs))"
  using assms by (auto simp: package_show_tool_def isValidPackageShowArgs_def)

lemma group_mistyped:
  assumes "(f, ps) \<in> set (properties (inputSchema group_list_tool))"
    and "map_of kvs f = Some v" and "js_typeof (Val v) \<noteq> ptype ps"
  shows "\<not> isValidGroupListArgs (Val (JObj kvs))"
  using assms by (auto simp: group_list_tool_def isValidGroupListArgs_def)

lemma tag_mistyped:
  assumes "(f, ps) \<in> set (properties (inputSchema tag_list_tool))"
    and "map_of kvs f = Some v" and "js_typeof (Val v) \<noteq> ptype ps"
  shows "\<not> isValidTagListArgs (Val (JObj kvs))"
  using assms by (auto simp: tag_list_tool_def isValidTagListArgs_def)

text \<open>
  Claim C2, as amended.  The claim says that a bag with a field name outside the
  schema is rejected too; the validators never look at other names, so such a name
  alone rejects no bag.  What holds: for every tool of the catalog and every field of
  its schema, an object that has the field with a value of another type than the
  schema's is rejected with \<^verbatim>\<open>InvalidParams\<close>, and no GET is made.
\<close>

theorem mistyped_field_rejected:
  assumes "t \<in> set tools"
    and "(f, ps) \<in> set (properties (inputSchema t))"
    and "map_of kvs f = Some v"
    and "js_typeof (Val v) \<noteq> ptype ps"
  shows "call_tool net (name t) (Val (JObj kvs)) =
           ([], Inl (McpError InvalidParams (''Invalid '' @ name t @ '' arguments'')))"
proof -
  consider "t = package_search_tool" | "t = package_show_tool" | "t = group_list_tool"
    | "t = tag_list_tool"
    using assms(1) by (auto simp: tools_def)
  then show ?thesis
  proof cases
    case 1
    with assms show ?thesis
      by (simp add: tool_names invalid_args_rejected(1) [OF search_mistyped])
  next
    case 2
    with assms show ?thesis
      by (simp add: tool_names invalid_args_rejected(2) [OF show_mistyped])
  next
    case 3
    with assms show ?thesis
      by (simp add: tool_names invalid_args_rejected(3) [OF group_mistyped])
  next
    case 4
    with assms show ?thesis
      by (simp add: tool_names invalid_args_rejected(4) [OF tag_mistyped])
  qed
qed

text \<open>Witness for C2 as amended: \<^verbatim>\<open>package_search\<close> with \<^verbatim>\<open>{"rows": "ten"}\<close>.\<close>

theorem mistyped_field_rejected_witness:
  "\<forall>net. call_tool net ''package_search'' (Val (JObj [(''rows'', JStr ''ten'')])) =
     ([], Inl (McpError InvalidParams ''Invalid package_search arguments''))"
  using mistyped_field_rejected [of package_search_tool "''rows''"
      "\<lparr>ptype = ''number'', pdescription = ''Number of results per page''\<rparr>"
      "[(''rows'', JStr ''ten'')]" "JStr ''ten''"]
  by (simp add: tools_def tool_names) (simp add: package_search_tool_def)

text \<open>
  Counterexample to C2 as stated: \<^verbatim>\<open>package_search\<close> with \<^verbatim>\<open>{"bogus": 1}\<close>, a field
  name that is not in the schema, is not rejected: the GET is made, with the unknown
  field among its query parameters, and the answer is returned.
\<close>

theorem unknown_field_not_rejected:
  "call_tool (\<lambda>r. Resolved (Response 200 [] JNull)) ''package_search''
     (Val (JObj [(''bogus'', JNum (Finite 1))])) =
   ([\<lparr>baseURL = Some BASE_URL, url = ''/action/package_search'',
      params = Val (JObj [(''bogus'', JNum (Finite 1))]), responseType = None\<rparr>],
    Inr \<lparr>content = [\<lparr>ctype = ''text'', ctext = ''null''\<rparr>], isError = None\<rparr>)"
  by (simp add: call_tool_def isValidPackageSearchArgs_def packageSearch_def api_get_def
      success_result_def JSON_stringify_def)

text \<open>
  Claim C5.  \<^verbatim>\<open>package_show\<close> with arguments that have no string \<^verbatim>\<open>id\<close> throws
  \<^verbatim>\<open>InvalidParams\<close> and makes no GET; and whenever any call of a tool makes a GET, the
  validator of that tool has accepted the arguments.
\<close>

theorem package_show_requires_string_id:
  assumes "js_typeof (js_get args ''id'') \<noteq> ''string''"
  shows "call_tool net ''package_show'' args =
           ([], Inl (McpError InvalidParams ''Invalid package_show arguments'')) \<and>
         (fst (call_tool net nm args') = [] \<or>
            nm = ''package_search'' \<and> isValidPackageSearchArgs args' \<or>
            nm = ''package_show'' \<and> isValidPackageShowArgs args' \<or>
            nm = ''group_list'' \<and> isValidGroupListArgs args' \<or>
            nm = ''tag_list'' \<and> isValidTagListArgs args')"
proof -
  have "\<not> isValidPackageShowArgs args"
    using assms by (simp add: isValidPackageShowArgs_def)
  then show ?thesis
    using call_made_valid [of net nm args'] by (auto simp: invalid_args_rejected(2))
qed

text \<open>Witness for C5: the empty bag \<^verbatim>\<open>{}\<close>.\<close>

theorem package_show_requires_string_id_witness:
  "\<forall>net. call_tool net ''package_show'' (Val (JObj [])) =
     ([], Inl (McpError InvalidParams ''Invalid package_show arguments''))"
  using package_show_requires_string_id [of "Val (JObj [])"] by simp

text \<open>
  Claim C6.  A name that is none of the four tools throws \<^verbatim>\<open>MethodNotFound\<close>, whatever
  the arguments are (no validator decides), and makes no GET.
\<close>

theorem unknown_tool_method_not_found:
  assumes "nm \<notin> {''package_search'', ''package_show'', ''group_list'', ''tag_list''}"
  shows "call_tool net nm args = ([], Inl (McpError MethodNotFound (''Unknown tool: '' @ nm)))"
  using assms by (simp add: call_tool_def)

text \<open>Witness for C6: the name \<^verbatim>\<open>does_not_exist\<close>.\<close>

theorem unknown_tool_method_not_found_witness:
  "\<forall>net args. call_tool net ''does_not_exist'' args =
     ([], Inl (McpError MethodNotFound ''Unknown tool: does_not_exist''))"
  using unknown_tool_method_not_found [of "''does_not_exist''"] by simp

text \<open>
  Claim C9.  The catalog handler gives the same answer to every request, makes no
  GET, and lists four tools under the names \<^verbatim>\<open>package_search\<close>, \<^verbatim>\<open>package_show\<close>,
  \<^verbatim>\<open>group_list\<close>, \<^verbatim>\<open>tag_list\<close>, in this order.
\<close>

theorem list_tools_static:
  "list_tools r = list_tools r' \<and>
   fst (list_tools r) = [] \<and>
   (\<exists>ts. snd (list_tools r) = Inr ts \<and> length ts = 4 \<and>
      map name ts = [''package_search'', ''package_show'', ''group_list'', ''tag_list''])"
  by (simp add: list_tools_def tools_def tool_names)

text \<open>
  The handler on arguments that are not an object: each of the four validators says
  no.  The SDK lets the handler see such arguments only when they are absent.
\<close>

lemma handler_rejects_non_object:
  assumes "js_typeof args \<noteq> ''object'' \<or> args = Val JNull"
    and "nm \<in> {''package_search'', ''package_show'', ''group_list'', ''tag_list''}"
  shows "call_tool net nm args =
           ([], Inl (McpError InvalidParams (''Invalid '' @ nm @ '' arguments'')))"
proof -
  note inv = non_object_invalid [OF assms(1)]
  consider "nm = ''package_search''" | "nm = ''package_show''" | "nm = ''group_list''"
    | "nm = ''tag_list''"
    using assms(2) by blast
  then show ?thesis
  proof cases
    case 1
    then show ?thesis by (simp add: invalid_args_rejected(1) [OF inv(1)])
  next
    case 2
    then show ?thesis by (simp add: invalid_args_rejected(2) [OF inv(2)])
  next
    case 3
    then show ?thesis by (simp add: invalid_args_rejected(3) [OF inv(3)])
  next
    case 4
    then show ?thesis by (simp add: invalid_args_rejected(4) [OF inv(4)])
  qed
qed

lemma handler_empty_bag:
  assumes "nm \<in> {''package_search'', ''group_list'', ''tag_list''}"
  shows "fst (call_tool net nm (Val (JObj []))) =
           [\<lparr>baseURL = Some BASE_URL, url = ''/action/'' @ nm, params = Val (JObj []),
             responseType = None\<rparr>]"
proof -
  consider "nm = ''package_search''" | "nm = ''group_list''" | "nm = ''tag_list''"
    using assms by blast
  then show ?thesis
  proof cases
    case 1
    then show ?thesis
      by (simp add: valid_call(1) [OF empty_bag_valid(1)] packageSearch_def fst_api_get)
  next
    case 2
    then show ?thesis
      by (simp add: valid_call(3) [OF empty_bag_valid(2)] groupList_def fst_api_get)
  next
    case 3
    then show ?thesis
      by (simp add: valid_call(4) [OF empty_bag_valid(3)] tagList_def fst_api_get)
  qed
qed

text \<open>
  Claim C10, as amended.  The claim says that arguments that are a string, a number, a
  boolean or \<^verbatim>\<open>null\<close> fail with \<^verbatim>\<open>InvalidParams\<close>; the request schema refuses them
  before the handler runs, and the failure is the schema's.  What holds, for each of
  the four tools: absent arguments throw \<^verbatim>\<open>InvalidParams\<close> and make no GET; arguments
  that are a value but no object (a string, a number, a boolean, \<^verbatim>\<open>null\<close>, an array)
  throw the \<^verbatim>\<open>ZodError\<close> of the schema, answered with the code -32603 and not with -32602
  of \<^verbatim>\<open>InvalidParams\<close>, and make no GET; and the three tools whose fields are all
  optional make their GET when given the empty object.
\<close>

theorem absent_or_non_object_arguments:
  assumes "nm \<in> {''package_search'', ''package_show'', ''group_list'', ''tag_list''}"
  shows "tools_call net nm Undefined =
           ([], Inl (McpError InvalidParams (''Invalid '' @ nm @ '' arguments''))) \<and>
         ((\<forall>kvs. j \<noteq> JObj kvs) \<longrightarrow> tools_call net nm (Val j) = ([], Inl ZodError)) \<and>
         jsonrpc_code ZodError = - 32603 \<and>
         jsonrpc_code (McpError InvalidParams (''Invalid '' @ nm @ '' arguments'')) = - 32602 \<and>
         (nm \<noteq> ''package_show'' \<longrightarrow>
            fst (tools_call net nm (Val (JObj []))) =
              [\<lparr>baseURL = Some BASE_URL, url = ''/action/'' @ nm, params = Val (JObj []),
                responseType = None\<rparr>])"
proof -
  have "tools_call net nm Undefined =
      ([], Inl (McpError InvalidParams (''Invalid '' @ nm @ '' arguments'')))"
    using handler_rejects_non_object [of Undefined nm net] assms
    by (simp add: tools_call_def CallToolRequestSchema_def)
  moreover have "tools_call net nm (Val j) = ([], Inl ZodError)" if "\<forall>kvs. j \<noteq> JObj kvs"
    using that by (cases j) (simp_all add: tools_call_def CallToolRequestSchema_def)
  moreover have "fst (tools_call net nm (Val (JObj []))) =
      [\<lparr>baseURL = Some BASE_URL, url = ''/action/'' @ nm, params = Val (JObj []),
        responseType = None\<rparr>]" if "nm \<noteq> ''package_show''"
    using handler_empty_bag [of nm net] assms that
    by (simp add: tools_call_def CallToolRequestSchema_def)
  ultimately show ?thesis by simp
qed

text \<open>
  Witness for C10 as amended: \<^verbatim>\<open>group_list\<close> without arguments, \<^verbatim>\<open>package_show\<close> with
  \<^verbatim>\<open>null\<close>, and \<^verbatim>\<open>package_search\<close> with the empty object.
\<close>

theorem absent_or_non_object_arguments_witness:
  "\<forall>net.
     tools_call net ''group_list'' Undefined =
       ([], Inl (McpError InvalidParams ''Invalid group_list arguments'')) \<and>
     tools_call net ''package_show'' (Val JNull) = ([], Inl ZodError) \<and>
     fst (tools_call net ''package_search'' (Val (JObj []))) =
       [\<lparr>baseURL = Some BASE_URL, url = ''/action/package_search'', params = Val (JObj []),
         responseType = None\<rparr>]"
  using absent_or_non_object_arguments [of "''group_list''"]
    absent_or_non_object_arguments [of "''package_show''" _ JNull]
    absent_or_non_object_arguments [of "''package_search''"]
  by simp

text \<open>
  Counterexample to C10 as stated: \<^verbatim>\<open>tag_list\<close> with the string \<^verbatim>\<open>"x"\<close> as arguments.
  The request does not pass the schema; what is thrown is the \<^verbatim>\<open>ZodError\<close>, whose
  answer has the code of an internal error, and not \<^verbatim>\<open>InvalidParams\<close>.
\<close>

theorem string_arguments_not_invalid_params:
  "tools_call (\<lambda>r. Rejected (OtherError [])) ''tag_list'' (Val (JStr ''x'')) =
     ([], Inl ZodError) \<and>
   jsonrpc_code ZodError = - 32603 \<and>
   jsonrpc_code (McpError InvalidParams ''Invalid tag_list arguments'') = - 32602"
  by (simp add: tools_call_def CallToolRequestSchema_def)

section \<open>Base64 decodes what was encoded\<close>

lemma b64_index_char: "i < 64 \<Longrightarrow> b64_index (b64_char i) = Some i"
  unfolding b64_index_def b64_char_def Let_def
  by (auto simp: char_of_eq_iff take_bit_eq_mod)

lemma b64_char_not_pad: "i < 64 \<Longrightarrow> b64_char i \<noteq> CHR ''=''"
  unfolding b64_char_def
  by (auto simp: char_of_eq_iff take_bit_eq_mod)

lemma unat_byte: "unat (a :: 8 word) < 256"
  using unsigned_less [of a, where ?'a = nat] by simp

lemma sextets_a:
  fixes a b c :: nat
  assumes "a < 256" "b < 256" "c < 256"
  shows "a div 4 < 64" "a mod 4 * 16 < 64" "a mod 4 * 16 + b div 16 < 64" "b mod 16 * 4 < 64"
    "b mod 16 * 4 + c div 64 < 64" "c mod 64 < 64"
  using assms by simp_all

lemma sextets_b:
  fixes a b c :: nat
  assumes "b < 256"
  shows "a div 4 * 4 + (a mod 4 * 16 + b div 16) div 16 = a"
    "a div 4 * 4 + (a mod 4 * 16) div 16 = a"
proof -
  have "b div 16 < 16" using assms by simp
  then have "(a mod 4 * 16 + b div 16) div 16 = a mod 4" by simp
  then show "a div 4 * 4 + (a mod 4 * 16 + b div 16) div 16 = a" by simp
  show "a div 4 * 4 + (a mod 4 * 16) div 16 = a" by simp
qed

lemma sextets_c:
  fixes a b c :: nat
  assumes "b < 256" "c < 256"
  shows "(a mod 4 * 16 + b div 16) mod 16 * 16 + (b mod 16 * 4 + c div 64) div 4 = b"
    "(a mod 4 * 16 + b div 16) mod 16 * 16 + (b mod 16 * 4) div 4 = b"
proof -
  have 1: "b div 16 < 16" using assms by simp
  have 2: "c div 64 < 4" using assms by simp
  have 3: "(a mod 4 * 16 + b div 16) mod 16 = b div 16" using 1 by simp
  have 4: "(b mod 16 * 4 + c div 64) div 4 = b mod 16" using 2 by simp
  show "(a mod 4 * 16 + b div 16) mod 16 * 16 + (b mod 16 * 4 + c div 64) div 4 = b"
    unfolding 3 4 by simp
  show "(a mod 4 * 16 + b div 16) mod 16 * 16 + (b mod 16 * 4) div 4 = b"
    unfolding 3 by simp
qed

lemma sextets_d:
  fixes b c :: nat
  assumes "c < 256"
  shows "(b mod 16 * 4 + c div 64) mod 4 * 64 + c mod 64 = c"
proof -
  have 2: "c div 64 < 4" using assms by simp
  have "(b mod 16 * 4 + c div 64) mod 4 = c div 64" using 2 by simp
  then show ?thesis by simp
qed

lemma decode_quad:
  assumes "i < 64" "j < 64" "k < 64" "l < 64"
  shows "base64_decode (b64_char i # b64_char j # b64_char k # b64_char l # cs) =
     (case base64_decode cs of
        None \<Rightarrow> None
      | Some bs \<Rightarrow>
          Some (of_nat (i * 4 + j div 16) # of_nat (j mod 16 * 16 + k div 4) #
                of_nat (k mod 4 * 64 + l) # bs))"
  using assms by (simp add: b64_index_char b64_char_not_pad del: of_nat_add of_nat_mult)

lemma decode_pad1:
  assumes "i < 64" "j < 64" "k < 64"
  shows "base64_decode [b64_char i, b64_char j, b64_char k, CHR ''=''] =
     Some [of_nat (i * 4 + j div 16), of_nat (j mod 16 * 16 + k div 4)]"
  using assms by (simp add: b64_index_char b64_char_not_pad del: of_nat_add of_nat_mult)

lemma decode_pad2:
  assumes "i < 64" "j < 64"
  shows "base64_decode [b64_char i, b64_char j, CHR ''='', CHR ''=''] =
     Some [of_nat (i * 4 + j div 16)]"
  using assms by (simp add: b64_index_char b64_char_not_pad del: of_nat_add of_nat_mult)

lemma base64_roundtrip: "base64_decode (base64 bs) = Some bs"
proof (induction bs rule: base64.induct)
  case 1
  show ?case by simp
next
  case (2 a)
  note s = sextets_a [OF unat_byte [of a] unat_byte [of a] unat_byte [of a]]
  show ?case
    by (simp only: base64.simps decode_pad2 [OF s(1) s(2)] sextets_b(2) [OF unat_byte [of a]]
        of_nat_unat ucast_id)
next
  case (3 a b)
  note s = sextets_a [OF unat_byte [of a] unat_byte [of b] unat_byte [of b]]
  show ?case
    by (simp only: base64.simps decode_pad1 [OF s(1) s(3) s(4)] sextets_b(1) [OF unat_byte [of b]]
        sextets_c(2) [OF unat_byte [of b] unat_byte [of b]] of_nat_unat ucast_id)
next
  case (4 a b c bs)
  note s = sextets_a [OF unat_byte [of a] unat_byte [of b] unat_byte [of c]]
  show ?case
    by (simp only: base64.simps append.simps decode_quad [OF s(1) s(3) s(5) s(6)] 4
        option.case sextets_b(1) [OF unat_byte [of b]]
        sextets_c(1) [OF unat_byte [of b] unat_byte [of c]] sextets_d [OF unat_byte [of c]]
        of_nat_unat ucast_id)
qed

section \<open>Failures of the remote call\<close>

lemma nested_message_detail:
  assumes "map_of kvs ''error'' = Some (JObj es)" and "map_of es ''message'' = Some (JStr m)"
    and "m \<noteq> []"
  shows "error_detail (Json (JObj kvs)) = Inr ([CHR 0x0A] @ ''Message: '' @ m)"
  using assms by (simp add: error_detail_def)

text \<open>
  A failed GET of a tool whose response carries a printable detail: the envelope has
  one text block with the message, the status and the detail, and the failure flag.
\<close>

lemma http_failure_envelope:
  assumes "net \<lparr>baseURL = Some BASE_URL, url = path, params = ps, responseType = None\<rparr> =
      Rejected (AxiosError msg (Some r) rq)"
    and "error_detail (Json (data r)) = Inr detail"
  shows "api_get net path ps =
     ([\<lparr>baseURL = Some BASE_URL, url = path, params = ps, responseType = None\<rparr>],
      Inr \<lparr>content = [\<lparr>ctype = ''text'',
             ctext = ''Data.gov API error: '' @ msg @ [CHR 0x0A] @ ''Status: '' @
                     NumberToString (Finite (of_int (status r))) @ detail\<rparr>],
           isError = Some True\<rparr>)"
  using assms by (cases r) (simp add: api_get_def error_result_def)

text \<open>
  The example of the specification: \<^verbatim>\<open>package_show\<close> with \<^verbatim>\<open>{"id": "x"}\<close>, answered by
  HTTP 404 with the body \<^verbatim>\<open>{"success": false, "error": {"message": "Not found"}}\<close>.
\<close>

lemma package_show_404_example:
  "call_tool (\<lambda>r. Rejected (AxiosError ''Request failed with status code 404''
       (Some (Response 404 []
          (JObj [(''success'', JBool False),
                 (''error'', JObj [(''message'', JStr ''Not found'')])]))) True))
     ''package_show'' (Val (JObj [(''id'', JStr ''x'')])) =
   ([\<lparr>baseURL = Some BASE_URL, url = ''/action/package_show'',
      params = Val (JObj [(''id'', JStr ''x'')]), responseType = None\<rparr>],
    Inr \<lparr>content = [\<lparr>ctype = ''text'',
           ctext = ''Data.gov API error: Request failed with status code 404'' @ [CHR 0x0A] @
                   ''Status: 404'' @ [CHR 0x0A] @ ''Message: Not found''\<rparr>],
         isError = Some True\<rparr>)"
proof -
  have "shortest_digits 404 = (3, 3, 404)"
    by (simp add: number_eval digits_eval)
  then have n: "NumberToString (Finite 404) = ''404''"
    by (simp add: NumberToString.simps string_eval)
  show ?thesis
    by (simp add: call_tool_def isValidPackageShowArgs_def packageShow_def api_get_def
        error_detail_def error_result_def n)
qed

text \<open>
  Claim C4 says that a failed GET of a tool never throws.  Here the server answers 404
  with the body \<^verbatim>\<open>{"success": false, "error": {"toString": 1}}\<close>.  The \<^verbatim>\<open>error\<close> field
  has no \<^verbatim>\<open>message\<close>, so \<^verbatim>\<open>handleAxiosError\<close> evaluates the template literal on the
  \<^verbatim>\<open>error\<close> object itself; its own \<^verbatim>\<open>toString\<close> is not callable, the conversion throws
  a \<^verbatim>\<open>TypeError\<close> inside the \<^verbatim>\<open>catch\<close> block of \<^verbatim>\<open>packageShow\<close>, and the call of the
  tool throws instead of returning an envelope.
\<close>

theorem unprintable_error_detail_throws:
  "call_tool (\<lambda>r. Rejected (AxiosError ''Request failed with status code 404''
       (Some (Response 404 []
          (JObj [(''success'', JBool False), (''error'', JObj [(''toString'', JNum (Finite 1))])])))
       True))
     ''package_show'' (Val (JObj [(''id'', JStr ''x'')])) =
   ([\<lparr>baseURL = Some BASE_URL, url = ''/action/package_show'',
      params = Val (JObj [(''id'', JStr ''x'')]), responseType = None\<rparr>],
    Inl TypeError)"
  by (simp add: call_tool_def isValidPackageShowArgs_def packageShow_def api_get_def
      error_detail_def)

section \<open>Reading a resource\<close>

lemma match_resource_uri_iff:
  "match_resource_uri u = Some s \<longleftrightarrow>
     u = ''datagov://resource/'' @ s \<and> s \<noteq> [] \<and> \<not> has_line_terminator s"
proof -
  define p where "p = ''datagov://resource/''"
  define A where "A \<longleftrightarrow> take (length p) u = p"
  define d where "d = drop (length p) u"
  have split: "u = p @ s \<longleftrightarrow> A \<and> d = s"
    unfolding A_def d_def by (metis append_eq_conv_conj)
  have "match_resource_uri u =
      (if A \<and> d \<noteq> [] \<and> \<not> has_line_terminator d then Some d else None)"
    unfolding match_resource_uri_def Let_def A_def d_def p_def ..
  then show ?thesis
    unfolding p_def [symmetric] split by auto
qed

text \<open>
  Claim C8.  A URI that the pattern does not match throws \<^verbatim>\<open>InvalidRequest\<close>, and no GET
  is made.
\<close>

theorem malformed_uri_invalid_request:
  assumes "match_resource_uri u = None"
  shows "read_resource net u = ([], Inl (McpError InvalidRequest (''Invalid URI format: '' @ u)))"
  using assms by (simp add: read_resource_def)

text \<open>
  Witness for C8: a URI of another scheme, and the prefix with nothing after it.
\<close>

theorem malformed_uri_invalid_request_witness:
  "\<forall>net.
     read_resource net ''https://example.com/file.csv'' =
       ([], Inl (McpError InvalidRequest ''Invalid URI format: https://example.com/file.csv'')) \<and>
     read_resource net ''datagov://resource/'' =
       ([], Inl (McpError InvalidRequest ''Invalid URI format: datagov://resource/''))"
proof -
  have 1: "match_resource_uri ''https://example.com/file.csv'' = None" by code_simp
  have 2: "match_resource_uri ''datagov://resource/'' = None" by code_simp
  show ?thesis
    using malformed_uri_invalid_request [OF 1] malformed_uri_invalid_request [OF 2] by simp
qed

lemma example_uri_match:
  "match_resource_uri ''datagov://resource/https%3A%2F%2Fexample.com%2Ffile.csv'' =
     Some ''https%3A%2F%2Fexample.com%2Ffile.csv''"
  by code_simp

lemma example_uri_decode:
  "decodeURIComponent ''https%3A%2F%2Fexample.com%2Ffile.csv'' = Inr ''https://example.com/file.csv''"
  by code_simp

text \<open>
  On a \<^verbatim>\<open>Buffer\<close> body \<^verbatim>\<open>handleAxiosError\<close> always returns its summary: one text block
  and the failure flag.
\<close>

lemma buffer_failure_summary:
  "\<exists>summary. handleAxiosError (map_failure Buffer e) = Inr summary \<and>
     isError summary = Some True \<and> length (content summary) = 1"
proof (cases e)
  case (AxiosError msg resp rq)
  show ?thesis
  proof (cases resp)
    case None
    with AxiosError show ?thesis by (simp add: error_result_def)
  next
    case (Some r)
    with AxiosError show ?thesis
      by (cases r) (simp add: error_detail_def error_result_def)
  qed
next
  case (OtherError s)
  then show ?thesis by (simp add: error_result_def)
qed

text \<open>
  Claim C3.  When the URI matches and decodes and the GET fails, the handler makes that
  one GET, computes the summary with \<^verbatim>\<open>handleAxiosError\<close>, as the tools do, drops it,
  and throws the error it caught: the result is never a returned value.
\<close>

theorem resource_failure_rethrown:
  assumes "match_resource_uri u = Some enc"
    and "decodeURIComponent enc = Inr target"
    and "net \<lparr>baseURL = None, url = target, params = Undefined,
              responseType = Some ''arraybuffer''\<rparr> = Rejected e"
  shows "read_resource net u =
           ([\<lparr>baseURL = None, url = target, params = Undefined,
              responseType = Some ''arraybuffer''\<rparr>], Inl (Rethrown e)) \<and>
         (\<exists>summary. handleAxiosError (map_failure Buffer e) = Inr summary \<and>
            isError summary = Some True \<and> length (content summary) = 1)"
proof -
  obtain summary where "handleAxiosError (map_failure Buffer e) = Inr summary"
    using buffer_failure_summary [of e] by blast
  with assms have "read_resource net u =
           ([\<lparr>baseURL = None, url = target, params = Undefined,
              responseType = Some ''arraybuffer''\<rparr>], Inl (Rethrown e))"
    by (simp add: read_resource_def)
  with buffer_failure_summary [of e] show ?thesis by blast
qed

text \<open>
  Witness for C3: the URI of the specification's example, answered by HTTP 404.
\<close>

theorem resource_failure_rethrown_witness:
  "read_resource (\<lambda>r. Rejected (AxiosError ''Request failed with status code 404''
        (Some (Response 404 [] [110, 111])) True))
     ''datagov://resource/https%3A%2F%2Fexample.com%2Ffile.csv'' =
   ([\<lparr>baseURL = None, url = ''https://example.com/file.csv'', params = Undefined,
      responseType = Some ''arraybuffer''\<rparr>],
    Inl (Rethrown (AxiosError ''Request failed with status code 404''
        (Some (Response 404 [] [110, 111])) True)))"
  using resource_failure_rethrown [OF example_uri_match example_uri_decode,
      of "\<lambda>r. Rejected (AxiosError ''Request failed with status code 404''
        (Some (Response 404 [] [110, 111])) True)"]
  by simp

text \<open>
  Claim C7.  When the URI matches the pattern, its group decodes to \<open>target\<close> and the
  GET of \<open>target\<close> succeeds with a \<^verbatim>\<open>content-type\<close> header \<open>ct\<close>, the handler makes
  exactly that GET and returns one item whose text is \<^verbatim>\<open>data:\<close>, \<open>ct\<close>, \<^verbatim>\<open>;base64,\<close> and
  a payload; decoding the payload as base64 gives the bytes of the response.
\<close>

theorem resource_read_data_uri:
  assumes "match_resource_uri u = Some enc"
    and "decodeURIComponent enc = Inr target"
    and "net \<lparr>baseURL = None, url = target, params = Undefined,
              responseType = Some ''arraybuffer''\<rparr> = Resolved r"
    and "map_of (headers r) ''content-type'' = Some ct"
  shows "read_resource net u =
           ([\<lparr>baseURL = None, url = target, params = Undefined,
              responseType = Some ''arraybuffer''\<rparr>],
            Inr [\<lparr>uri = u, rtext = ''data:'' @ ct @ '';base64,'' @ base64 (data r)\<rparr>]) \<and>
         base64_decode (base64 (data r)) = Some (data r)"
  using assms by (simp add: read_resource_def base64_roundtrip)

text \<open>
  Witness for C7: \<^verbatim>\<open>datagov://resource/https%3A%2F%2Fexample.com%2Ffile.csv\<close>, answered
  with the four bytes \<^verbatim>\<open>a,b\<close> and a line feed as \<^verbatim>\<open>text/csv\<close>.
\<close>

theorem resource_read_data_uri_witness:
  "read_resource (\<lambda>r. Resolved (Response 200 [(''content-type'', ''text/csv'')] [97, 44, 98, 10]))
     ''datagov://resource/https%3A%2F%2Fexample.com%2Ffile.csv'' =
   ([\<lparr>baseURL = None, url = ''https://example.com/file.csv'', params = Undefined,
      responseType = Some ''arraybuffer''\<rparr>],
    Inr [\<lparr>uri = ''datagov://resource/https%3A%2F%2Fexample.com%2Ffile.csv'',
          rtext = ''data:text/csv;base64,YSxiCg==''\<rparr>]) \<and>
   base64_decode ''YSxiCg=='' = Some [97, 44, 98, 10]"
proof -
  have h: "map_of (headers (Response 200 [(''content-type'', ''text/csv'')] [97, 44, 98, 10]))
      ''content-type'' = Some ''text/csv''"
    by simp
  have b: "base64 (data (Response 200 [(''content-type'', ''text/csv'')] [97, 44, 98, 10])) =
      ''YSxiCg==''"
    by code_simp
  show ?thesis
    using resource_read_data_uri [where net = "\<lambda>r. Resolved
          (Response 200 [(''content-type'', ''text/csv'')] [97, 44, 98, 10])",
        OF example_uri_match example_uri_decode _ h]
    unfolding b by simp
qed

section \<open>Parsing gives back what was serialized\<close>

subsection \<open>White space\<close>

lemma skip_ws_append: "list_all is_ws w \<Longrightarrow> skip_ws (w @ s) = skip_ws s"
  by (induction w) (simp_all add: skip_ws_def)

lemma skip_ws_Cons: "\<not> is_ws c \<Longrightarrow> skip_ws (c # s) = c # s"
  by (simp add: skip_ws_def)

lemma parse_value_ws: "list_all is_ws w \<Longrightarrow> parse_value n (w @ s) = parse_value n s"
  by (cases n) (simp_all add: skip_ws_append)

lemma parse_elements_ws: "list_all is_ws w \<Longrightarrow> parse_elements n (w @ s) = parse_elements n s"
  by (cases n) (simp_all add: parse_value_ws)

lemma parse_members_ws: "list_all is_ws w \<Longrightarrow> parse_members n (w @ s) = parse_members n s"
  by (cases n) (simp_all add: skip_ws_append)

subsection \<open>Decimal numerals\<close>

lemma is_digit_digit_char: "d < 10 \<Longrightarrow> is_digit (digit_char d)"
  by (simp add: is_digit_def digit_char_def)

lemma digit_value_digit_char: "d < 10 \<Longrightarrow> digit_value (digit_char d) = d"
  by (simp add: digit_value_def digit_char_def)

lemma digits_all: "list_all is_digit (digits n)"
  by (induction n rule: digits.induct) (subst digits.simps, simp add: is_digit_digit_char)

lemma digits_not_Nil: "digits n \<noteq> []"
  by (subst digits.simps) simp

lemma dec_value_snoc: "dec_value (xs @ [d]) acc = 10 * dec_value xs acc + digit_value d"
  by (induction xs arbitrary: acc) simp_all

lemma dec_value_digits: "dec_value (digits n) 0 = n"
proof (induction n rule: digits.induct)
  case (1 n)
  show ?case
  proof (cases "n < 10")
    case True
    then show ?thesis by (subst digits.simps) (simp add: digit_value_digit_char)
  next
    case False
    with 1 show ?thesis
      by (subst digits.simps) (simp add: dec_value_snoc digit_value_digit_char)
  qed
qed

lemma take_digits_append:
  "list_all is_digit xs \<Longrightarrow> take_digits (xs @ ys) acc = take_digits ys (dec_value xs acc)"
  by (induction xs arbitrary: acc) simp_all

lemma take_digits_stop: "delim r \<Longrightarrow> take_digits r acc = (acc, r)"
  by (cases r) (simp_all add: delim_def)

lemma take_digits_digits: "delim r \<Longrightarrow> take_digits (digits n @ r) 0 = (n, r)"
  by (simp add: take_digits_append digits_all dec_value_digits take_digits_stop)

lemma hd_digits: "0 < n \<Longrightarrow> hd (digits n) \<noteq> CHR ''0''"
proof (induction n rule: digits.induct)
  case (1 n)
  show ?case
  proof (cases "n < 10")
    case True
    with 1(2) show ?thesis
      by (subst digits.simps) (simp add: digit_char_def char_of_eq_iff take_bit_eq_mod)
  next
    case False
    then have "0 < n div 10" by simp
    with 1 False show ?thesis
      by (subst digits.simps) (simp add: digits_not_Nil)
  qed
qed

lemma digits_0: "digits 0 = ''0''"
  by (subst digits.simps) (simp add: digit_char_def char_of_eq_iff take_bit_eq_mod)

lemma digits_Cons: "\<exists>c cs. digits n = c # cs \<and> is_digit c \<and> c \<noteq> CHR ''-''"
proof -
  obtain c cs where e: "digits n = c # cs"
    using digits_not_Nil [of n] by (cases "digits n") auto
  moreover have "is_digit c" using digits_all [of n] e by simp
  moreover from this have "c \<noteq> CHR ''-''" by (auto simp: is_digit_def)
  ultimately show ?thesis by blast
qed

lemma parse_int_digits: "delim r \<Longrightarrow> parse_int (digits n @ r) = Some (n, r)"
proof (cases "n = 0")
  case True
  then show ?thesis by (simp add: digits_0 parse_int_def)
next
  case False
  assume d: "delim r"
  obtain c cs where e: "digits n = c # cs" and c: "is_digit c"
    using digits_Cons [of n] by blast
  have "c \<noteq> CHR ''0''" using hd_digits [of n] False e by simp
  then have "parse_int (digits n @ r) = Some (take_digits (digits n @ r) 0)"
    using e c by (simp add: parse_int_def)
  then show ?thesis using d by (simp add: take_digits_digits)
qed

subsection \<open>Doubles\<close>

lemma round_half_even_of_int: "round_half_even (of_int z) = z"
  by (simp add: round_half_even_def)

lemma nearest_double:
  assumes "0 < q" "is_double q"
  shows "nearest q = q"
proof -
  define y where "y = q / 2 powi exponent q"
  from assms have y: "of_int \<lfloor>y\<rfloor> = y"
    unfolding y_def is_double_def by simp
  then have r: "round_half_even y = \<lfloor>y\<rfloor>"
    by (metis round_half_even_of_int)
  have "nearest q = of_int (round_half_even y) * 2 powi exponent q"
    by (simp add: nearest_def y_def)
  also have "\<dots> = of_int \<lfloor>y\<rfloor> * 2 powi exponent q"
    by (simp only: r)
  also have "\<dots> = y * 2 powi exponent q"
    by (simp only: y)
  also have "\<dots> = q"
    by (simp add: y_def)
  finally show ?thesis .
qed

lemma number_value_double: "0 < q \<Longrightarrow> is_double q \<Longrightarrow> number_value q = Finite q"
  using nearest_double [of q] by (simp add: number_value_def is_double_def)

lemma bit_length_bounds: "0 < n \<Longrightarrow> 2 ^ (bit_length n - 1) \<le> n \<and> n < 2 ^ bit_length n"
proof (induction n rule: bit_length.induct)
  case (1 n)
  show ?case
  proof (cases "n div 2 = 0")
    case True
    with "1.prems" have n: "n = 1" by (simp add: div_eq_0_iff)
    have "bit_length n = Suc 0"
      by (subst bit_length.simps, simp add: n, subst bit_length.simps, simp)
    with n show ?thesis by simp
  next
    case False
    then have "0 < n div 2" by simp
    with "1.IH" "1.prems" have ih: "2 ^ (bit_length (n div 2) - 1) \<le> n div 2"
      "n div 2 < 2 ^ bit_length (n div 2)" by simp_all
    have b: "bit_length n = Suc (bit_length (n div 2))"
      using "1.prems" by (subst bit_length.simps) simp
    have p: "0 < bit_length (n div 2)"
      using \<open>0 < n div 2\<close> by (subst bit_length.simps) simp
    then obtain j where j: "bit_length (n div 2) = Suc j" by (cases "bit_length (n div 2)") auto
    from ih j have "2 * 2 ^ j \<le> n" "n < 2 * 2 ^ Suc j" by simp_all
    with b j show ?thesis by simp
  qed
qed

lemma ilog2_bounds:
  assumes "0 < q"
  shows "2 powi ilog2 q \<le> q \<and> q < 2 powi (ilog2 q + 1)"
proof (cases "1 \<le> q")
  case True
  define n where "n = nat \<lfloor>q\<rfloor>"
  define b where "b = bit_length n"
  have n: "0 < n" "of_nat n \<le> q" "q < of_nat n + 1"
    using True by (simp_all add: n_def) linarith+
  note bb = bit_length_bounds [OF n(1), folded b_def]
  have bpos: "0 < b" using n(1) unfolding b_def by (subst bit_length.simps) simp
  have l: "ilog2 q = int b - 1" using True by (simp add: ilog2_def n_def b_def)
  have "(2::rat) powi (int b - 1) = 2 ^ (b - 1)"
    using bpos by (simp add: power_int_def nat_diff_distrib')
  also have "\<dots> = of_nat (2 ^ (b - 1))" by simp
  also have "\<dots> \<le> of_nat n" using bb by (simp only: of_nat_le_iff)
  finally have lo: "2 powi ilog2 q \<le> q" using n(2) l by simp
  have "of_nat n + 1 = (of_nat (Suc n) :: rat)" by simp
  also have "\<dots> \<le> of_nat (2 ^ b)" using bb by (simp only: of_nat_le_iff) simp
  also have "\<dots> = 2 powi (int b - 1 + 1)" by simp
  finally have "q < 2 powi (ilog2 q + 1)" using n(3) l by simp
  with lo show ?thesis by simp
next
  case False
  define c where "c = \<lceil>1 / q\<rceil>"
  define m where "m = nat (c - 1)"
  define b where "b = bit_length m"
  from False assms have q1: "1 < 1 / q" by (simp add: field_simps)
  then have c2: "2 \<le> c" unfolding c_def by linarith
  have c: "1 / q \<le> of_int c" "of_int c - 1 < 1 / q"
    unfolding c_def by linarith+
  have m: "0 < m" "of_nat m = (of_int c - 1 :: rat)" using c2 by (simp_all add: m_def)
  note bb = bit_length_bounds [OF m(1), folded b_def]
  have bpos: "0 < b" using m(1) unfolding b_def by (subst bit_length.simps) simp
  have l: "ilog2 q = - int b" using False by (simp add: ilog2_def c_def m_def b_def)
  have "of_int c = (of_nat (Suc m) :: rat)" using m(2) by simp
  also have "\<dots> \<le> of_nat (2 ^ b)" using bb by (simp only: of_nat_le_iff) simp
  also have "\<dots> = 2 ^ b" by simp
  finally have "of_int c \<le> (2::rat) ^ b" .
  with c(1) have "1 / q \<le> 2 ^ b" by linarith
  then have lo: "2 powi (- int b) \<le> q"
    using assms by (simp add: power_int_minus field_simps)
  have "(2::rat) ^ (b - 1) = of_nat (2 ^ (b - 1))" by simp
  also have "\<dots> \<le> of_nat m" using bb by (simp only: of_nat_le_iff)
  finally have "2 ^ (b - 1) < 1 / q" using c(2) m(2) by simp
  then have "q < 1 / 2 ^ (b - 1)"
    using assms by (simp add: field_simps)
  moreover have "(2::rat) powi (- int b + 1) = 1 / 2 ^ (b - 1)"
    using bpos by (cases b) (simp_all add: power_int_def field_simps)
  ultimately have "q < 2 powi (- int b + 1)"
    by (simp only:)
  with lo l show ?thesis by simp
qed

lemma ilog2_eq:
  assumes "2 powi l \<le> q" "q < 2 powi (l + 1)"
  shows "ilog2 q = l"
proof -
  have "0 < q" using assms(1) by (rule less_le_trans [rotated]) simp
  note b = ilog2_bounds [OF this]
  have "\<not> l + 1 \<le> ilog2 q"
  proof
    assume "l + 1 \<le> ilog2 q"
    then have "(2::rat) powi (l + 1) \<le> 2 powi ilog2 q" by (intro power_int_increasing) auto
    with b assms show False by linarith
  qed
  moreover have "\<not> ilog2 q + 1 \<le> l"
  proof
    assume "ilog2 q + 1 \<le> l"
    then have "(2::rat) powi (ilog2 q + 1) \<le> 2 powi l" by (intro power_int_increasing) auto
    with b assms show False by linarith
  qed
  ultimately show ?thesis by linarith
qed

lemma ilog2_less: "0 < q \<Longrightarrow> q < 2 powi l \<Longrightarrow> ilog2 q < l"
proof (rule ccontr)
  assume q: "0 < q" "q < 2 powi l" and "\<not> ilog2 q < l"
  then have "(2::rat) powi l \<le> 2 powi ilog2 q" by (intro power_int_increasing) auto
  with ilog2_bounds [OF q(1)] q(2) show False by linarith
qed

lemma ilog2_ge: "2 powi l \<le> q \<Longrightarrow> l \<le> ilog2 q"
proof (rule ccontr)
  assume q: "2 powi l \<le> q" and "\<not> l \<le> ilog2 q"
  then have "(2::rat) powi (ilog2 q + 1) \<le> 2 powi l" by (intro power_int_increasing) auto
  moreover have "0 < q" using q by (rule less_le_trans [rotated]) simp
  ultimately show False using ilog2_bounds [of q] q by linarith
qed

lemma round_half_even_bounds: "\<lfloor>y\<rfloor> \<le> round_half_even y \<and> round_half_even y \<le> \<lfloor>y\<rfloor> + 1"
  by (simp add: round_half_even_def)

lemma is_doubleI:
  assumes "0 < v" "v < 2 ^ 1024" "v / 2 powi exponent v = of_int w"
  shows "is_double v"
proof -
  have "of_int \<lfloor>v / 2 powi exponent v\<rfloor> = v / 2 powi exponent v"
    by (simp only: assms(3) floor_of_int)
  with assms(1,2) show ?thesis by (simp add: is_double_def)
qed

lemma scaled_bound:
  assumes "0 < q"
  shows "q / 2 powi exponent q < 2 ^ 53"
proof -
  define e where "e = exponent q"
  have e_ge: "ilog2 q - 52 \<le> e" by (simp add: e_def exponent_def)
  have "q < 2 powi (ilog2 q + 1)" using ilog2_bounds [OF assms] by simp
  also have "\<dots> \<le> 2 powi (e + 53)" using e_ge by (intro power_int_increasing) auto
  also have "\<dots> = 2 powi e * 2 ^ 53" by (simp add: power_int_add)
  finally show ?thesis by (simp add: e_def field_simps)
qed

lemma nearest_is_double:
  assumes "0 < q" "nearest q < 2 ^ 1024"
  shows "is_double (nearest q)"
proof -
  define e where "e = exponent q"
  define y where "y = q / 2 powi e"
  define z where "z = round_half_even y"
  define v where "v = nearest q"
  have v: "v = of_int z * 2 powi e" by (simp add: v_def nearest_def e_def y_def z_def)
  have e_ge: "- 1074 \<le> e" by (simp add: e_def exponent_def)
  have "y < 2 ^ 53" using scaled_bound [OF assms(1)] by (simp add: y_def e_def)
  then have "y < of_int (2 ^ 53)" by simp
  then have f: "\<lfloor>y\<rfloor> < 2 ^ 53" by (simp only: floor_less_iff)
  have "0 < y" using assms(1) by (simp add: y_def)
  then have "0 \<le> \<lfloor>y\<rfloor>" by simp
  with f round_half_even_bounds [of y] have z: "0 \<le> z" "z \<le> 2 ^ 53"
    unfolding z_def by linarith+
  show ?thesis
  proof (cases "z = 0")
    case True
    then show ?thesis using v by (simp add: is_double_def v_def [symmetric])
  next
    case False
    with z have zpos: "0 < z" by simp
    then have vpos: "0 < v" by (simp add: v)
    show ?thesis
    proof (cases "z = 2 ^ 53")
      case True
      have v2: "v = 2 powi (e + 53)" by (simp add: v True power_int_add)
      have "ilog2 v = e + 53"
        unfolding v2 by (rule ilog2_eq) (simp_all add: power_int_strict_increasing)
      then have ev: "exponent v = e + 1" using e_ge by (simp add: exponent_def)
      have "v / 2 powi exponent v = v / 2 powi (e + 1)"
        by (simp only: ev)
      also have "\<dots> = 2 powi (e + 53) / 2 powi (e + 1)"
        by (simp only: v2)
      also have "\<dots> = 2 powi (e + 53 - (e + 1))"
        by (subst power_int_diff) simp_all
      also have "\<dots> = of_int (2 ^ 52)" by simp
      finally show ?thesis
        using vpos assms(2) unfolding v_def [symmetric] by (rule is_doubleI [rotated 2])
    next
      case False
      with z have "z < 2 ^ 53" by simp
      then have "(of_int z :: rat) < of_int (2 ^ 53)" by (simp only: of_int_less_iff)
      then have "v < 2 ^ 53 * 2 powi e" by (simp add: v)
      also have "\<dots> = 2 powi (e + 53)" by (simp add: power_int_add)
      finally have "ilog2 v < e + 53" using vpos by (intro ilog2_less)
      then have ev: "exponent v \<le> e" using e_ge by (simp add: exponent_def)
      define e' where "e' = exponent v"
      define d where "d = nat (e - e')"
      have "e = e' + int d" using ev by (simp add: d_def e'_def)
      then have p: "(2::rat) powi e = 2 powi e' * 2 ^ d"
        by (simp add: power_int_add)
      have "v / 2 powi e' = of_int z * (2 powi e' * 2 ^ d) / 2 powi e'"
        by (simp only: v p)
      also have "\<dots> = of_int (z * 2 ^ d)"
        by simp
      finally have "v / 2 powi exponent v = of_int (z * 2 ^ d)"
        unfolding e'_def .
      then show ?thesis
        using vpos assms(2) unfolding v_def [symmetric] by (rule is_doubleI [rotated 2])
    qed
  qed
qed

lemma number_value_is_number: "0 \<le> q \<Longrightarrow> is_number (number_value q)"
  using nearest_is_double [of q] by (auto simp: number_value_def is_double_def)

lemma is_double_minus: "is_double (- q) = is_double q"
  by (simp add: is_double_def)

lemma is_double_0: "is_double 0"
  by (simp add: is_double_def)

lemma negate_is_number: "is_number x \<Longrightarrow> is_number (negate x)"
  by (cases x) (simp_all add: is_double_minus is_double_0)

lemma is_double_of_nat:
  assumes "n < 2 ^ 53"
  shows "is_double (of_nat n)"
proof (cases "n = 0")
  case True
  then show ?thesis by (simp add: is_double_def)
next
  case False
  define v :: rat where "v = of_nat n"
  have vpos: "0 < v" using False by (simp add: v_def)
  have "v < of_nat (2 ^ 53)" unfolding v_def using assms by (simp only: of_nat_less_iff)
  then have v53: "v < 2 powi 53" by simp
  then have "ilog2 v < 53" using vpos by (intro ilog2_less)
  then have ev: "exponent v \<le> 0" by (simp add: exponent_def)
  define d where "d = nat (- exponent v)"
  have "exponent v = - int d" using ev by (simp add: d_def)
  then have "v / 2 powi exponent v = of_int (int n * 2 ^ d)"
    by (simp add: power_int_minus v_def field_simps)
  moreover have "v < 2 ^ 1024" using v53 by simp
  ultimately show ?thesis
    using vpos unfolding v_def [symmetric] by (intro is_doubleI)
qed

lemma number_value_overflow:
  assumes "2 ^ 1024 \<le> q"
  shows "number_value q = PosInfinity"
proof -
  have qpos: "0 < q" using assms by (rule less_le_trans [rotated]) simp
  define e where "e = exponent q"
  define y where "y = q / 2 powi e"
  have "(2::rat) powi 1024 \<le> q" using assms by simp
  then have l: "1024 \<le> ilog2 q" by (rule ilog2_ge)
  then have e: "e = ilog2 q - 52" by (simp add: e_def exponent_def)
  have "2 powi ilog2 q \<le> q" using ilog2_bounds [OF qpos] by simp
  moreover have "(2::rat) powi ilog2 q = 2 ^ 52 * 2 powi e"
    unfolding e by (subst power_int_diff) simp_all
  ultimately have "of_int (2 ^ 52) \<le> y" by (simp add: y_def field_simps)
  then have "2 ^ 52 \<le> \<lfloor>y\<rfloor>" by (simp only: le_floor_iff)
  with round_half_even_bounds [of y] have "2 ^ 52 \<le> round_half_even y" by linarith
  then have "(of_int (2 ^ 52) :: rat) \<le> of_int (round_half_even y)"
    by (simp only: of_int_le_iff)
  then have "2 ^ 52 * 2 powi e \<le> nearest q"
    by (simp add: nearest_def y_def e_def)
  moreover have "(2::rat) ^ 52 * 2 powi e = 2 powi ilog2 q"
    unfolding e by (subst power_int_diff) simp_all
  moreover have "(2::rat) powi 1024 \<le> 2 powi ilog2 q"
    using l by (intro power_int_increasing) auto
  ultimately have "2 ^ 1024 \<le> nearest q" by simp
  with qpos show ?thesis by (simp add: number_value_def)
qed


subsection \<open>The digits of a number stand for it\<close>

lemma digits_length: "10 ^ (k - 1) \<le> s \<Longrightarrow> s < 10 ^ k \<Longrightarrow> length (digits s) = k"
proof (induction s arbitrary: k rule: digits.induct)
  case (1 n)
  show ?case
  proof (cases "n < 10")
    case True
    have "k = 1"
    proof (rule ccontr)
      assume "k \<noteq> 1"
      then consider "k = 0" | "2 \<le> k" by linarith
      then show False
      proof cases
        case 1
        with "1.prems" show False by simp
      next
        case 2
        then have "(10::nat) ^ 1 \<le> 10 ^ (k - 1)" by (intro power_increasing) auto
        with "1.prems" True show False by simp
      qed
    qed
    with True show ?thesis by (subst digits.simps) simp
  next
    case False
    have k2: "2 \<le> k"
    proof (rule ccontr)
      assume "\<not> 2 \<le> k"
      then have "(10::nat) ^ k \<le> 10 ^ 1" by (intro power_increasing) auto
      with "1.prems" False show False by simp
    qed
    then obtain j where j: "k = Suc (Suc j)" by (metis Suc_le_D numeral_2_eq_2 Suc_le_mono)
    from "1.prems" j have "10 ^ j \<le> n div 10" "n div 10 < 10 ^ Suc j"
      by (simp_all add: less_mult_imp_div_less mult.commute)
    with "1.IH" [of "Suc j"] False have "length (digits (n div 10)) = Suc j" by simp
    with False j show ?thesis by (subst digits.simps) simp
  qed
qed

text \<open>The magnitude of a positive number is the place of its first digit.\<close>

lemma digits_bounds:
  "0 < n \<Longrightarrow> 10 ^ (length (digits n) - 1) \<le> n \<and> n < 10 ^ length (digits n)"
proof (induction n rule: digits.induct)
  case (1 n)
  show ?case
  proof (cases "n < 10")
    case True
    with "1.prems" show ?thesis by (subst (1 2) digits.simps) simp
  next
    case False
    then have "0 < n div 10" by simp
    with "1.IH" False have ih: "10 ^ (length (digits (n div 10)) - 1) \<le> n div 10"
      "n div 10 < 10 ^ length (digits (n div 10))" by simp_all
    obtain j where j: "length (digits (n div 10)) = Suc j"
      using digits_not_Nil [of "n div 10"] by (cases "digits (n div 10)") auto
    have l: "length (digits n) = Suc (Suc j)"
      using False j by (subst digits.simps) simp
    from ih j have "10 * 10 ^ j \<le> n" "n < 10 * 10 ^ Suc j" by simp_all
    with l show ?thesis by simp
  qed
qed

lemma magnitude_bounds:
  assumes "0 < q"
  shows "10 powi (magnitude q - 1) \<le> q \<and> q < 10 powi magnitude q"
proof (cases "1 \<le> q")
  case True
  define n where "n = nat \<lfloor>q\<rfloor>"
  define b where "b = length (digits n)"
  have n: "0 < n" "of_nat n \<le> q" "q < of_nat n + 1"
    using True by (simp_all add: n_def) linarith+
  note bb = digits_bounds [OF n(1), folded b_def]
  have bpos: "0 < b" using digits_not_Nil [of n] by (simp add: b_def)
  have l: "magnitude q = int b" using True by (simp add: magnitude_def n_def b_def)
  have "(10::rat) powi (int b - 1) = 10 ^ (b - 1)"
    using bpos by (simp add: power_int_def nat_diff_distrib')
  also have "\<dots> = of_nat (10 ^ (b - 1))" by simp
  also have "\<dots> \<le> of_nat n" using bb by (simp only: of_nat_le_iff)
  finally have lo: "10 powi (magnitude q - 1) \<le> q" using n(2) l by simp
  have "of_nat n + 1 = (of_nat (Suc n) :: rat)" by simp
  also have "\<dots> \<le> of_nat (10 ^ b)" using bb by (simp only: of_nat_le_iff) simp
  also have "\<dots> = 10 powi int b" by simp
  finally have "q < 10 powi magnitude q" using n(3) l by simp
  with lo show ?thesis by simp
next
  case False
  define c where "c = \<lceil>1 / q\<rceil>"
  define m where "m = nat (c - 1)"
  define b where "b = length (digits m)"
  from False assms have q1: "1 < 1 / q" by (simp add: field_simps)
  then have c2: "2 \<le> c" unfolding c_def by linarith
  have c: "1 / q \<le> of_int c" "of_int c - 1 < 1 / q"
    unfolding c_def by linarith+
  have m: "0 < m" "of_nat m = (of_int c - 1 :: rat)" using c2 by (simp_all add: m_def)
  note bb = digits_bounds [OF m(1), folded b_def]
  have bpos: "0 < b" using digits_not_Nil [of m] by (simp add: b_def)
  have l: "magnitude q = 1 - int b" using False by (simp add: magnitude_def c_def m_def b_def)
  have "of_int c = (of_nat (Suc m) :: rat)" using m(2) by simp
  also have "\<dots> \<le> of_nat (10 ^ b)" using bb by (simp only: of_nat_le_iff) simp
  also have "\<dots> = 10 ^ b" by simp
  finally have "of_int c \<le> (10::rat) ^ b" .
  with c(1) have "1 / q \<le> 10 ^ b" by linarith
  then have lo: "10 powi (- int b) \<le> q"
    using assms by (simp add: power_int_minus field_simps)
  have "(10::rat) ^ (b - 1) = of_nat (10 ^ (b - 1))" by simp
  also have "\<dots> \<le> of_nat m" using bb by (simp only: of_nat_le_iff)
  finally have "10 ^ (b - 1) < 1 / q" using c(2) m(2) by simp
  then have "q < 1 / 10 ^ (b - 1)"
    using assms by (simp add: field_simps)
  moreover have "(10::rat) powi (- int b + 1) = 1 / 10 ^ (b - 1)"
    using bpos by (cases b) (simp_all add: power_int_def field_simps)
  ultimately have "q < 10 powi (- int b + 1)"
    by (simp only:)
  with lo l show ?thesis by simp
qed

lemma represents_digits: "represents q n k s \<Longrightarrow> 0 < s \<and> length (digits s) = k"
  unfolding represents_def using digits_length [of k s]
  by (metis less_le_trans zero_less_numeral zero_less_power)

lemma candidate_sound: "candidate q n k s = Some (n', k', s') \<Longrightarrow> represents q n' k' s'"
  by (auto simp: candidate_def split: if_splits)

lemma digits_of_length_sound:
  "digits_of_length q n k = Some (n', k', s') \<Longrightarrow> represents q n' k' s'"
  by (auto simp: digits_of_length_def Let_def dest: candidate_sound split: option.splits if_splits)

lemma shortest_sound: "shortest q n ks = Some (n', k', s') \<Longrightarrow> represents q n' k' s'"
  by (induction ks) (auto dest: digits_of_length_sound split: option.splits)

lemma exact_digits_sound:
  assumes "0 < q" "is_double q" "exact_digits q = (n, k, s)"
  shows "0 < s \<and> length (digits s) = k \<and>
         number_value (of_nat s * 10 powi (n - int k)) = Finite q"
proof -
  define e where "e = exponent q"
  define y where "y = q / 2 powi e"
  define z where "z = nat \<lfloor>y\<rfloor>"
  from assms have y: "of_int \<lfloor>y\<rfloor> = y"
    unfolding y_def e_def is_double_def by simp
  have ypos: "0 < y" using assms(1) by (simp add: y_def)
  then have "0 < \<lfloor>y\<rfloor>" using y by (metis of_int_0_less_iff)
  then have zpos: "0 < z" and zy: "of_nat z = y"
    using y by (simp_all add: z_def)
  have q: "q = y * 2 powi e" by (simp add: y_def)
  show ?thesis
  proof (cases "0 \<le> e")
    case True
    with assms(3) have s: "s = z * 2 ^ nat e" and k: "k = length (digits s)" and n: "n = int k"
      by (auto simp: exact_digits_def Let_def e_def [symmetric] y_def [symmetric] z_def [symmetric])
    have "of_nat s * 10 powi (n - int k) = q"
      using True by (simp add: s n q zy power_int_def)
    with s k zpos assms show ?thesis by (simp add: number_value_double)
  next
    case False
    with assms(3) have s: "s = z * 5 ^ nat (- e)" and k: "k = length (digits s)"
      and n: "n = int k + e"
      by (auto simp: exact_digits_def Let_def e_def [symmetric] y_def [symmetric] z_def [symmetric])
    have "(10::rat) powi e = 2 powi e * 5 powi e"
      by (metis mult_2 numeral_Bit0 numeral_Bit1 numeral_One power_int_mult_distrib numeral_times_numeral semiring_norm(11,13))
    moreover have "(5::rat) ^ nat (- e) * 5 powi e = 1"
      using False by (simp add: power_int_def field_simps)
    ultimately have "of_nat s * 10 powi (n - int k) = q"
      by (simp add: s n q zy)
    with s k zpos assms show ?thesis by (simp add: number_value_double)
  qed
qed

lemma shortest_digits_sound:
  assumes "0 < q" "is_double q" "shortest_digits q = (n, k, s)"
  shows "0 < s \<and> length (digits s) = k \<and>
         number_value (of_nat s * 10 powi (n - int k)) = Finite q"
proof (cases "shortest q (magnitude q) [1 ..< 18]")
  case None
  with assms(3) have "exact_digits q = (n, k, s)" by (simp add: shortest_digits_def)
  with assms(1,2) show ?thesis by (rule exact_digits_sound)
next
  case (Some r)
  with assms(3) have "shortest q (magnitude q) [1 ..< 18] = Some (n, k, s)"
    by (simp add: shortest_digits_def)
  then have "represents q n k s" by (rule shortest_sound)
  then show ?thesis using represents_digits [of q n k s] by (simp add: represents_def)
qed

subsection \<open>Reading a numeral\<close>

lemma dec_value_append: "dec_value (xs @ ys) acc = dec_value ys (dec_value xs acc)"
  by (induction xs arbitrary: acc) simp_all

lemma dec_value_zeros: "dec_value (replicate m CHR ''0'') acc = acc * 10 ^ m"
  by (induction m arbitrary: acc) (simp_all add: digit_value_def)

lemma is_digit_0: "is_digit CHR ''0''"
  by (simp add: is_digit_def)

lemma takeWhile_digits:
  "list_all is_digit ys \<Longrightarrow> r = [] \<or> \<not> is_digit (hd r) \<Longrightarrow>
   takeWhile is_digit (ys @ r) = ys \<and> dropWhile is_digit (ys @ r) = r"
  by (induction ys) (cases r; auto)+

lemma take_digits_end: "r = [] \<or> \<not> is_digit (hd r) \<Longrightarrow> take_digits r acc = (acc, r)"
  by (cases r) auto

lemma parse_int_string:
  assumes "list_all is_digit xs" "xs \<noteq> []" "hd xs \<noteq> CHR ''0''" "r = [] \<or> \<not> is_digit (hd r)"
  shows "parse_int (xs @ r) = Some (dec_value xs 0, r)"
proof -
  from assms(2) obtain c cs where e: "xs = c # cs" by (cases xs) auto
  with assms have "parse_int (xs @ r) = Some (take_digits (xs @ r) 0)"
    by (simp add: parse_int_def)
  then show ?thesis using assms(1,4) by (simp add: take_digits_append take_digits_end)
qed

lemma parse_fraction_none: "take 1 r \<noteq> ''.'' \<Longrightarrow> parse_fraction r = Some ([], r)"
  by (simp add: parse_fraction_def)

lemma parse_fraction_digits:
  "list_all is_digit ys \<Longrightarrow> ys \<noteq> [] \<Longrightarrow> r = [] \<or> \<not> is_digit (hd r) \<Longrightarrow>
   parse_fraction (CHR ''.'' # ys @ r) = Some (ys, r)"
  by (simp add: parse_fraction_def takeWhile_digits)

lemma parse_exponent_none:
  "take 1 r \<noteq> ''e'' \<Longrightarrow> take 1 r \<noteq> ''E'' \<Longrightarrow> parse_exponent r = Some (0, r)"
  by (simp add: parse_exponent_def)

lemma parse_exponent_part:
  assumes "r = [] \<or> \<not> is_digit (hd r)"
  shows "parse_exponent (CHR ''e'' # exponent_part e @ r) = Some (e, r)"
proof -
  have t: "takeWhile is_digit (digits m @ r) = digits m"
    and d: "dropWhile is_digit (digits m @ r) = r" for m
    using takeWhile_digits [OF digits_all assms] by simp_all
  show ?thesis
    by (simp add: parse_exponent_def exponent_part_def t d digits_not_Nil dec_value_digits)
qed

lemma delim_end: "delim r \<Longrightarrow> r = [] \<or> \<not> is_digit (hd r)"
  by (cases r) (simp_all add: delim_def)

lemma delim_no_fraction: "delim r \<Longrightarrow> take 1 r \<noteq> ''.''"
  by (cases r) (simp_all add: delim_def)

lemma delim_no_exponent: "delim r \<Longrightarrow> take 1 r \<noteq> ''e'' \<and> take 1 r \<noteq> ''E''"
  by (cases r) (simp_all add: delim_def)

lemma not_digit_chars: "\<not> is_digit CHR ''.''" "\<not> is_digit CHR ''e''"
  by (simp_all add: is_digit_def)

lemma parse_unsigned_number_text:
  assumes s: "0 < s" and k: "length (digits s) = k" and r: "delim r"
  shows "parse_unsigned (number_text n k (digits s) @ r) =
         Some (of_nat s * 10 powi (n - int k), r)"
proof -
  define ds where "ds = digits s"
  have ds: "list_all is_digit ds" "ds \<noteq> []" "hd ds \<noteq> CHR ''0''" "dec_value ds 0 = s"
    "length ds = k"
    using s k by (simp_all add: ds_def digits_all digits_not_Nil hd_digits dec_value_digits)
  have kpos: "0 < k" using ds(2,5) by auto
  note e = delim_end [OF r]
  note nf = parse_fraction_none [OF delim_no_fraction [OF r]]
  note ne = parse_exponent_none [OF conjunct1 [OF delim_no_exponent [OF r]]
      conjunct2 [OF delim_no_exponent [OF r]]]
  consider (int) "int k \<le> n" "n \<le> 21"
    | (frac) "0 < n" "n < int k" "n \<le> 21"
    | (small) "- 6 < n" "n \<le> 0"
    | (exp1) "\<not> (int k \<le> n \<and> n \<le> 21)" "\<not> (0 < n \<and> n \<le> 21)" "\<not> (- 6 < n \<and> n \<le> 0)" "k = 1"
    | (exp) "\<not> (int k \<le> n \<and> n \<le> 21)" "\<not> (0 < n \<and> n \<le> 21)" "\<not> (- 6 < n \<and> n \<le> 0)" "k \<noteq> 1"
    by linarith
  then show ?thesis
  proof cases
    case int
    define m where "m = nat (n - int k)"
    define xs where "xs = ds @ replicate m CHR ''0''"
    have xs: "list_all is_digit xs" "xs \<noteq> []" "hd xs \<noteq> CHR ''0''"
      using ds by (auto simp: xs_def is_digit_0 list_all_iff)
    have v: "dec_value xs 0 = s * 10 ^ m"
      by (simp add: xs_def dec_value_append ds dec_value_zeros)
    have "number_text n k ds @ r = xs @ r"
      using int by (simp add: number_text_def xs_def m_def)
    then have "parse_unsigned (number_text n k ds @ r) = Some (of_nat (s * 10 ^ m), r)"
      by (simp add: parse_unsigned_def parse_int_string [OF xs e] nf ne v)
    moreover have "(10::rat) powi (n - int k) = 10 ^ m"
      using int by (simp add: power_int_def m_def)
    ultimately show ?thesis by (simp add: ds_def)
  next
    case frac
    define xs where "xs = take (nat n) ds"
    define ys where "ys = drop (nat n) ds"
    have xs: "list_all is_digit xs" "xs \<noteq> []" "hd xs \<noteq> CHR ''0''"
      using ds frac by (auto simp: xs_def list_all_iff dest: in_set_takeD)
    have ys: "list_all is_digit ys" "ys \<noteq> []" "length ys = k - nat n"
      using ds frac by (auto simp: ys_def list_all_iff dest: in_set_dropD)
    have v: "dec_value ys (dec_value xs 0) = s"
      using ds(4) by (simp add: dec_value_append [symmetric] xs_def ys_def)
    have e1: "CHR ''.'' # ys @ r = [] \<or> \<not> is_digit (hd (CHR ''.'' # ys @ r))"
      by (simp add: not_digit_chars)
    have "number_text n k ds @ r = xs @ CHR ''.'' # ys @ r"
      using frac by (simp add: number_text_def xs_def ys_def)
    then have "parse_unsigned (number_text n k ds @ r) =
        Some (of_nat s * 10 powi (0 - int (length ys)), r)"
      by (simp add: parse_unsigned_def parse_int_string [OF xs e1]
          parse_fraction_digits [OF ys(1,2) e] ne v)
    moreover have "0 - int (length ys) = n - int k"
      using frac ys(3) by simp
    ultimately show ?thesis by (simp add: ds_def)
  next
    case small
    define ys where "ys = replicate (nat (- n)) CHR ''0'' @ ds"
    have ys: "list_all is_digit ys" "ys \<noteq> []" "length ys = nat (- n) + k"
      using ds by (auto simp: ys_def is_digit_0 list_all_iff)
    have v: "dec_value ys 0 = s"
      using ds(4) by (simp add: ys_def dec_value_append dec_value_zeros)
    have "number_text n k ds @ r = CHR ''0'' # CHR ''.'' # ys @ r"
      using small kpos by (simp add: number_text_def ys_def)
    then have "parse_unsigned (number_text n k ds @ r) =
        Some (of_nat s * 10 powi (0 - int (length ys)), r)"
      by (simp add: parse_unsigned_def parse_int_def parse_fraction_digits [OF ys(1,2) e] ne v)
    moreover have "0 - int (length ys) = n - int k"
      using small ys(3) by simp
    ultimately show ?thesis by (simp add: ds_def)
  next
    case exp1
    have e1: "CHR ''e'' # exponent_part (n - 1) @ r = [] \<or>
        \<not> is_digit (hd (CHR ''e'' # exponent_part (n - 1) @ r))"
      by (simp add: not_digit_chars)
    have "number_text n k ds = ds @ ''e'' @ exponent_part (n - 1)"
      unfolding number_text_def using exp1 by (simp only: if_False if_True simp_thms)
    then have "number_text n k ds @ r = ds @ CHR ''e'' # exponent_part (n - 1) @ r"
      by simp
    then have "parse_unsigned (number_text n k ds @ r) = Some (of_nat s * 10 powi (n - 1), r)"
      by (simp add: parse_unsigned_def parse_int_string [OF ds(1,2,3) e1]
          parse_fraction_none parse_exponent_part [OF e] ds(4))
    then show ?thesis using exp1(4) by (simp add: ds_def)
  next
    case exp
    define xs where "xs = take 1 ds"
    define ys where "ys = drop 1 ds"
    have k2: "2 \<le> k" using exp(4) kpos by linarith
    have xs: "list_all is_digit xs" "xs \<noteq> []" "hd xs \<noteq> CHR ''0''"
      using ds by (auto simp: xs_def list_all_iff dest: in_set_takeD)
    have ys: "list_all is_digit ys" "ys \<noteq> []" "length ys = k - 1"
      using ds k2 by (auto simp: ys_def list_all_iff dest: in_set_dropD)
    have v: "dec_value ys (dec_value xs 0) = s"
      using ds(4) by (simp add: dec_value_append [symmetric] xs_def ys_def)
    have e1: "CHR ''.'' # ys @ CHR ''e'' # exponent_part (n - 1) @ r = [] \<or>
        \<not> is_digit (hd (CHR ''.'' # ys @ CHR ''e'' # exponent_part (n - 1) @ r))"
      by (simp add: not_digit_chars)
    have e2: "CHR ''e'' # exponent_part (n - 1) @ r = [] \<or>
        \<not> is_digit (hd (CHR ''e'' # exponent_part (n - 1) @ r))"
      by (simp add: not_digit_chars)
    have "number_text n k ds = take 1 ds @ ''.'' @ drop 1 ds @ ''e'' @ exponent_part (n - 1)"
      unfolding number_text_def using exp by (simp only: if_False if_True simp_thms)
    then have "number_text n k ds @ r =
        xs @ CHR ''.'' # ys @ CHR ''e'' # exponent_part (n - 1) @ r"
      by (simp add: xs_def ys_def)
    then have "parse_unsigned (number_text n k ds @ r) =
        Some (of_nat s * 10 powi (n - 1 - int (length ys)), r)"
      by (simp add: parse_unsigned_def parse_int_string [OF xs e1]
          parse_fraction_digits [OF ys(1,2) e2] parse_exponent_part [OF e] v)
    moreover have "n - 1 - int (length ys) = n - int k"
      using k2 ys(3) by simp
    ultimately show ?thesis by (simp add: ds_def)
  qed
qed

lemma number_text_Cons:
  assumes "ds \<noteq> []" "list_all is_digit ds" "length ds = k"
  shows "\<exists>c t. number_text n k ds = c # t \<and> is_digit c"
proof -
  from assms obtain d cs where d: "ds = d # cs" "is_digit d" by (cases ds) auto
  show ?thesis
  proof (cases "0 < n")
    case True
    then obtain j where "nat n = Suc j" by (cases "nat n") auto
    with True d show ?thesis by (simp add: number_text_def)
  next
    case False
    with d assms(3) show ?thesis by (auto simp: number_text_def is_digit_0)
  qed
qed

lemma positive_string_parse:
  assumes "0 < q" "is_double q" "delim r"
  shows "\<exists>v c t. parse_unsigned (positive_string q @ r) = Some (v, r) \<and>
           number_value v = Finite q \<and> positive_string q = c # t \<and> is_digit c"
proof -
  obtain n k s where t: "shortest_digits q = (n, k, s)" by (cases "shortest_digits q") auto
  note g = shortest_digits_sound [OF assms(1,2) t]
  have "parse_unsigned (positive_string q @ r) = Some (of_nat s * 10 powi (n - int k), r)"
    using parse_unsigned_number_text [of s k r n] g assms(3) by (simp add: positive_string_def t)
  moreover obtain c u where "positive_string q = c # u" "is_digit c"
    using number_text_Cons [of "digits s" k n] g
    by (auto simp: positive_string_def t digits_not_Nil digits_all)
  ultimately show ?thesis using g by blast
qed

lemma not_digit_minus: "is_digit c \<Longrightarrow> c \<noteq> CHR ''-''"
  by (auto simp: is_digit_def)

lemma parse_number_NumberToString:
  assumes "is_double q" and "delim r"
  shows "parse_number (NumberToString (Finite q) @ r) = Some (JNum (Finite q), r)"
proof -
  consider "q = 0" | "0 < q" | "q < 0" by linarith
  then show ?thesis
  proof cases
    case 1
    note nf = parse_fraction_none [OF delim_no_fraction [OF assms(2)]]
    note ne = parse_exponent_none [OF conjunct1 [OF delim_no_exponent [OF assms(2)]]
        conjunct2 [OF delim_no_exponent [OF assms(2)]]]
    from 1 show ?thesis
      by (simp add: NumberToString.simps parse_number_def parse_unsigned_def parse_int_def nf ne
          number_value_def)
  next
    case 2
    obtain v c t where p: "parse_unsigned (positive_string q @ r) = Some (v, r)"
      "number_value v = Finite q" "positive_string q = c # t" "is_digit c"
      using positive_string_parse [OF 2 assms] by blast
    then have "c \<noteq> CHR ''-''" by (simp add: not_digit_minus)
    with 2 p show ?thesis by (simp add: NumberToString.simps parse_number_def)
  next
    case 3
    then have "0 < - q" "is_double (- q)" using assms(1) by (simp_all add: is_double_def)
    then obtain v where p: "parse_unsigned (positive_string (- q) @ r) = Some (v, r)"
      "number_value v = Finite (- q)"
      using positive_string_parse [OF _ _ assms(2)] by blast
    with 3 show ?thesis by (simp add: NumberToString.simps parse_number_def)
  qed
qed

lemma shortest_digits_length: "shortest_digits q = (n, k, s) \<Longrightarrow> length (digits s) = k"
proof (cases "shortest q (magnitude q) [1 ..< 18]")
  case None
  then show "shortest_digits q = (n, k, s) \<Longrightarrow> length (digits s) = k"
    by (auto simp: shortest_digits_def exact_digits_def Let_def)
next
  case (Some r)
  assume "shortest_digits q = (n, k, s)"
  with Some have "shortest q (magnitude q) [1 ..< 18] = Some (n, k, s)"
    by (simp add: shortest_digits_def)
  then have "represents q n k s" by (rule shortest_sound)
  then show "length (digits s) = k" by (simp add: represents_digits)
qed

lemma positive_string_Cons: "\<exists>c t. positive_string q = c # t \<and> is_digit c"
proof -
  obtain n k s where t: "shortest_digits q = (n, k, s)" by (cases "shortest_digits q") auto
  show ?thesis
    using number_text_Cons [of "digits s" k n] shortest_digits_length [OF t]
    by (simp add: positive_string_def t digits_not_Nil digits_all)
qed

lemma NumberToString_Cons:
  "is_finite n \<Longrightarrow> \<exists>c t. NumberToString n = c # t \<and> (c = CHR ''-'' \<or> is_digit c)"
proof (cases n)
  case (Finite q)
  then show ?thesis
    using positive_string_Cons [of q] by (auto simp: NumberToString.simps is_digit_0)
qed (simp_all add: NumberToString.simps is_digit_0)

lemma NumberToString_not_Nil: "NumberToString n \<noteq> []"
proof (cases n)
  case (Finite q)
  then show ?thesis
    using positive_string_Cons [of q] by (auto simp: NumberToString.simps)
qed (simp_all add: NumberToString.simps)

lemma parse_unsigned_nonneg: "parse_unsigned s = Some (q, r) \<Longrightarrow> 0 \<le> q"
  by (auto simp: parse_unsigned_def split: option.splits)

subsection \<open>Strings\<close>

lemma hex_value_hex_char: "d < 16 \<Longrightarrow> hex_value (hex_char d) = Some d"
  unfolding hex_value_def hex_char_def Let_def
  by (auto simp: char_of_eq_iff take_bit_eq_mod)

lemma hex_value_0: "hex_value CHR ''0'' = Some 0"
  by (simp add: hex_value_def)

lemma hex4_control:
  assumes "n < 0x20"
  shows "hex4 (CHR ''0'' # CHR ''0'' # hex_char (n div 16) # hex_char (n mod 16) # cs) = Some n"
proof -
  have "n div 16 < 16" "n mod 16 < 16" using assms by simp_all
  then show ?thesis
    by (simp add: hex_value_hex_char hex_value_0)
qed

lemma parse_chars_escape:
  assumes "unescape e = Some ch" and "e \<noteq> CHR ''u''"
  shows "parse_chars (CHR 0x5C # e # cs) = prepend [ch] (parse_chars cs)"
  using assms by simp

lemma parse_chars_control:
  assumes "(of_char c :: nat) < 0x20"
  shows "parse_chars (CHR 0x5C # CHR ''u'' # CHR ''0'' # CHR ''0'' #
           hex_char (of_char c div 16) # hex_char (of_char c mod 16) # cs) =
         prepend [c] (parse_chars cs)"
  using assms by (simp add: hex4_control utf8_def del: hex4.simps)

lemma parse_chars_plain:
  assumes "c \<noteq> CHR 0x22" and "c \<noteq> CHR 0x5C" and "\<not> (of_char c :: nat) < 0x20"
  shows "parse_chars (c # cs) = prepend [c] (parse_chars cs)"
  using assms by simp

lemma of_char_nat_eqI: "(of_char c :: nat) = of_char d \<Longrightarrow> c = d"
  by (rule of_char_eqI)

lemma parse_chars_quote_char: "parse_chars (quote_char c @ cs) = prepend [c] (parse_chars cs)"
proof -
  consider (b) "(of_char c :: nat) = 0x08" | (t) "(of_char c :: nat) = 0x09"
    | (n) "(of_char c :: nat) = 0x0A" | (f) "(of_char c :: nat) = 0x0C"
    | (r) "(of_char c :: nat) = 0x0D" | (q) "(of_char c :: nat) = 0x22"
    | (s) "(of_char c :: nat) = 0x5C"
    | (u) "(of_char c :: nat) \<notin> {0x08, 0x09, 0x0A, 0x0C, 0x0D, 0x22, 0x5C}" "(of_char c :: nat) < 0x20"
    | (p) "(of_char c :: nat) \<notin> {0x08, 0x09, 0x0A, 0x0C, 0x0D, 0x22, 0x5C}" "\<not> (of_char c :: nat) < 0x20"
    by blast
  then show ?thesis
  proof cases
    case b
    then have "c = CHR 0x08" by (intro of_char_nat_eqI) simp
    then show ?thesis
      by (simp add: quote_char_def parse_chars_escape [of "CHR ''b''"] unescape_def
          del: parse_chars.simps)
  next
    case t
    then have "c = CHR 0x09" by (intro of_char_nat_eqI) simp
    then show ?thesis
      by (simp add: quote_char_def parse_chars_escape [of "CHR ''t''"] unescape_def
          del: parse_chars.simps)
  next
    case n
    then have "c = CHR 0x0A" by (intro of_char_nat_eqI) simp
    then show ?thesis
      by (simp add: quote_char_def parse_chars_escape [of "CHR ''n''"] unescape_def
          del: parse_chars.simps)
  next
    case f
    then have "c = CHR 0x0C" by (intro of_char_nat_eqI) simp
    then show ?thesis
      by (simp add: quote_char_def parse_chars_escape [of "CHR ''f''"] unescape_def
          del: parse_chars.simps)
  next
    case r
    then have "c = CHR 0x0D" by (intro of_char_nat_eqI) simp
    then show ?thesis
      by (simp add: quote_char_def parse_chars_escape [of "CHR ''r''"] unescape_def
          del: parse_chars.simps)
  next
    case q
    then have "c = CHR 0x22" by (intro of_char_nat_eqI) simp
    then show ?thesis
      by (simp add: quote_char_def parse_chars_escape [of "CHR 0x22"] unescape_def
          del: parse_chars.simps)
  next
    case s
    then have "c = CHR 0x5C" by (intro of_char_nat_eqI) simp
    then show ?thesis
      by (simp add: quote_char_def parse_chars_escape [of "CHR 0x5C"] unescape_def
          del: parse_chars.simps)
  next
    case u
    then show ?thesis
      by (simp add: quote_char_def Let_def parse_chars_control del: parse_chars.simps)
  next
    case p
    then have "c \<noteq> CHR 0x22" "c \<noteq> CHR 0x5C" by auto
    with p show ?thesis
      by (simp add: quote_char_def Let_def parse_chars_plain del: parse_chars.simps)
  qed
qed

lemma parse_chars_quoted:
  "parse_chars (concat (map quote_char s) @ CHR 0x22 # r) = Some (s, r)"
  by (induction s) (simp_all add: parse_chars_quote_char prepend_def del: parse_chars.simps,
      simp)

lemma parse_chars_QuoteJSONString:
  "\<exists>t. QuoteJSONString s @ r = CHR 0x22 # t \<and> parse_chars t = Some (s, r)"
  by (simp add: QuoteJSONString_def parse_chars_quoted del: parse_chars.simps)

subsection \<open>Property order\<close>

lemma ordered_keys_prefix: "ordered_keys (xs @ ys) \<Longrightarrow> ordered_keys xs"
proof (induction xs rule: ordered_keys.induct)
  case (1 k l ks)
  then show ?case by simp
qed simp_all

lemma ordered_keys_before:
  assumes "ordered_keys (ks @ [k])" and "index_of k = Some i"
  shows "\<forall>l \<in> set ks. \<exists>j. index_of l = Some j \<and> j < i"
  using assms
proof (induction ks rule: ordered_keys.induct)
  case (1 a b ks)
  then have "\<forall>l \<in> set (b # ks). \<exists>j. index_of l = Some j \<and> j < i" by simp
  moreover from this obtain j where "index_of b = Some j" "j < i" by auto
  moreover from 1(2) have "case index_of b of None \<Rightarrow> True
      | Some j \<Rightarrow> (case index_of a of None \<Rightarrow> False | Some i \<Rightarrow> i < j)"
    by simp
  ultimately show ?case by (auto split: option.splits)
qed (auto split: option.splits)

lemma insert_index_last:
  assumes "\<forall>p \<in> set ps. \<exists>j. index_of (fst p) = Some j \<and> j < i"
  shows "insert_index i k v ps = ps @ [(k, v)]"
  using assms by (induction ps) auto

lemma CreateDataProperty_last:
  assumes "distinct (map fst (ps @ [kv]))" and "ordered_keys (map fst (ps @ [kv]))"
  shows "CreateDataProperty ps kv = ps @ [kv]"
proof (cases "index_of (fst kv)")
  case None
  with assms(1) show ?thesis by (auto simp: CreateDataProperty_def)
next
  case (Some i)
  have "\<forall>l \<in> set (map fst ps). \<exists>j. index_of l = Some j \<and> j < i"
    using ordered_keys_before [of "map fst ps" "fst kv" i] assms(2) Some by simp
  then have "insert_index i (fst kv) (snd kv) ps = ps @ [kv]"
    by (simp add: insert_index_last)
  with assms(1) Some show ?thesis by (auto simp: CreateDataProperty_def)
qed

lemma foldl_CreateDataProperty:
  assumes "distinct (map fst (ps @ qs))" and "ordered_keys (map fst (ps @ qs))"
  shows "foldl CreateDataProperty ps qs = ps @ qs"
  using assms
proof (induction qs arbitrary: ps)
  case Nil
  show ?case by simp
next
  case (Cons kv qs)
  have d: "distinct (map fst (ps @ [kv]))" using Cons.prems(1) by auto
  have "ordered_keys (map fst (ps @ [kv]) @ map fst qs)" using Cons.prems(2) by simp
  then have o: "ordered_keys (map fst (ps @ [kv]))" by (rule ordered_keys_prefix)
  have "foldl CreateDataProperty (ps @ [kv]) qs = (ps @ [kv]) @ qs"
    using Cons.prems by (intro Cons.IH) simp_all
  then show ?case by (simp add: CreateDataProperty_last [OF d o])
qed

lemma make_object_members:
  "distinct (map fst kvs) \<Longrightarrow> ordered_keys (map fst kvs) \<Longrightarrow> make_object kvs = JObj kvs"
  using foldl_CreateDataProperty [of "[]" kvs] by (simp add: make_object_def)

subsection \<open>The steps of the parser\<close>

lemma join_Cons: "join sep (x # xs) = x @ (if xs = [] then [] else sep @ join sep xs)"
  by (cases xs) simp_all

lemma ws_gap: "list_all is_ws indent \<Longrightarrow> list_all is_ws (indent @ gap)"
  by (simp add: gap_def is_ws_def)

lemma parse_value_number:
  assumes "c = CHR ''-'' \<or> is_digit c"
  shows "parse_value (Suc m) (c # cs) = parse_number (c # cs)"
proof -
  have "\<not> is_ws c" "c \<noteq> CHR ''{''" "c \<noteq> CHR ''[''" "c \<noteq> CHR 0x22"
    using assms by (auto simp: is_ws_def is_digit_def)
  then show ?thesis
    using assms by (simp add: skip_ws_Cons)
qed

lemma parse_value_string:
  "parse_value (Suc m) (CHR 0x22 # cs) =
     (case parse_chars cs of None \<Rightarrow> None | Some (str, r) \<Rightarrow> Some (JStr str, r))"
  by (simp add: skip_ws_def is_ws_def)

lemma parse_value_literal:
  "parse_value (Suc m) (CHR ''n'' # CHR ''u'' # CHR ''l'' # CHR ''l'' # r) = Some (JNull, r)"
  "parse_value (Suc m) (CHR ''t'' # CHR ''r'' # CHR ''u'' # CHR ''e'' # r) = Some (JBool True, r)"
  "parse_value (Suc m) (CHR ''f'' # CHR ''a'' # CHR ''l'' # CHR ''s'' # CHR ''e'' # r) =
     Some (JBool False, r)"
  by (simp_all add: skip_ws_def is_ws_def is_digit_def)

lemma parse_value_empty:
  "parse_value (Suc m) (CHR ''['' # CHR '']'' # r) = Some (JArr [], r)"
  "parse_value (Suc m) (CHR ''{'' # CHR ''}'' # r) = Some (JObj [], r)"
  by (simp_all add: skip_ws_def is_ws_def)

lemma parse_value_array:
  assumes "list_all is_ws w" and "\<not> is_ws c" and "c \<noteq> CHR '']''"
    and "parse_elements m (c # t) = Some (xs, r)"
  shows "parse_value (Suc m) (CHR ''['' # w @ c # t) = Some (JArr xs, r)"
proof -
  have "skip_ws (w @ c # t) = c # t"
    using assms(1,2) by (simp add: skip_ws_append skip_ws_Cons)
  moreover have "parse_elements m (w @ c # t) = Some (xs, r)"
    using assms(1,4) by (simp add: parse_elements_ws)
  moreover have "skip_ws (CHR ''['' # w @ c # t) = CHR ''['' # w @ c # t"
    by (simp add: skip_ws_def is_ws_def)
  ultimately show ?thesis using assms(3) by simp
qed

lemma parse_value_object:
  assumes "list_all is_ws w" and "\<not> is_ws c" and "c \<noteq> CHR ''}''"
    and "parse_members m (c # t) = Some (kvs, r)"
  shows "parse_value (Suc m) (CHR ''{'' # w @ c # t) = Some (make_object kvs, r)"
proof -
  have "skip_ws (w @ c # t) = c # t"
    using assms(1,2) by (simp add: skip_ws_append skip_ws_Cons)
  moreover have "parse_members m (w @ c # t) = Some (kvs, r)"
    using assms(1,4) by (simp add: parse_members_ws)
  moreover have "skip_ws (CHR ''{'' # w @ c # t) = CHR ''{'' # w @ c # t"
    by (simp add: skip_ws_def is_ws_def)
  ultimately show ?thesis using assms(3) by simp
qed

lemma parse_elements_more:
  assumes "parse_value m s = Some (v, CHR '','' # w @ s')" and "list_all is_ws w"
    and "parse_elements m s' = Some (vs, r)"
  shows "parse_elements (Suc m) s = Some (v # vs, r)"
proof -
  have "skip_ws (CHR '','' # w @ s') = CHR '','' # w @ s'"
    by (simp add: skip_ws_def is_ws_def)
  moreover have "parse_elements m (w @ s') = Some (vs, r)"
    using assms(2,3) by (simp add: parse_elements_ws)
  ultimately show ?thesis using assms(1) by simp
qed

lemma parse_elements_last:
  assumes "parse_value m s = Some (v, w @ CHR '']'' # r)" and "list_all is_ws w"
  shows "parse_elements (Suc m) s = Some ([v], r)"
proof -
  have "skip_ws (w @ CHR '']'' # r) = CHR '']'' # r"
    using assms(2) by (simp add: skip_ws_append) (simp add: skip_ws_def is_ws_def)
  then show ?thesis using assms(1) by simp
qed

lemma parse_members_more:
  assumes "parse_chars t = Some (k, CHR '':'' # s1)"
    and "parse_value m s1 = Some (v, CHR '','' # w @ s')" and "list_all is_ws w"
    and "parse_members m s' = Some (kvs, r)"
  shows "parse_members (Suc m) (CHR 0x22 # t) = Some ((k, v) # kvs, r)"
proof -
  have "skip_ws (CHR 0x22 # t) = CHR 0x22 # t" "skip_ws (CHR '':'' # s1) = CHR '':'' # s1"
    "skip_ws (CHR '','' # w @ s') = CHR '','' # w @ s'"
    by (simp_all add: skip_ws_def is_ws_def)
  moreover have "parse_members m (w @ s') = Some (kvs, r)"
    using assms(3,4) by (simp add: parse_members_ws)
  ultimately show ?thesis using assms(1,2) by simp
qed

lemma parse_members_last:
  assumes "parse_chars t = Some (k, CHR '':'' # s1)"
    and "parse_value m s1 = Some (v, w @ CHR ''}'' # r)" and "list_all is_ws w"
  shows "parse_members (Suc m) (CHR 0x22 # t) = Some ([(k, v)], r)"
proof -
  have "skip_ws (CHR 0x22 # t) = CHR 0x22 # t" "skip_ws (CHR '':'' # s1) = CHR '':'' # s1"
    by (simp_all add: skip_ws_def is_ws_def)
  moreover have "skip_ws (w @ CHR ''}'' # r) = CHR ''}'' # r"
    using assms(3) by (simp add: skip_ws_append) (simp add: skip_ws_def is_ws_def)
  ultimately show ?thesis using assms(1,2) by simp
qed

lemma serialize_first:
  "\<exists>c t. SerializeJSONProperty indent v = c # t \<and> \<not> is_ws c \<and> c \<noteq> CHR '']''"
proof (cases v)
  case (JNum n)
  then show ?thesis
    using NumberToString_Cons [of n] by (auto simp: is_ws_def is_digit_def)
next
  case (JStr s)
  then show ?thesis by (simp add: QuoteJSONString_def is_ws_def)
qed (auto simp: is_ws_def)

subsection \<open>The text of a value parses to the value\<close>

lemma is_ws_simps:
  "is_ws (CHR 0x0A)" "is_ws (CHR '' '')" "\<not> is_ws (CHR 0x22)"
  by (simp_all add: is_ws_def)

lemma serialize_Nil_iff:
  "serialize_elements indent xs = [] \<longleftrightarrow> xs = []"
  "serialize_members indent kvs = [] \<longleftrightarrow> kvs = []"
  by (cases xs, simp_all) (cases kvs, auto)

declare parse_value.simps [simp del] parse_elements.simps [simp del]
  parse_members.simps [simp del]

lemma delim_tail:
  "delim (CHR '','' # s)" "delim (CHR 0x0A # s)"
  by (simp_all add: delim_def is_digit_def)

lemma parse_serialized:
  "exact v \<Longrightarrow> list_all is_ws indent \<Longrightarrow> need v \<le> n \<Longrightarrow> delim r \<Longrightarrow>
     parse_value n (SerializeJSONProperty indent v @ r) = Some (v, r)"
  "xs \<noteq> [] \<Longrightarrow> exact_values xs \<Longrightarrow> list_all is_ws indent \<Longrightarrow> list_all is_ws i0 \<Longrightarrow>
     need_elements xs \<le> n \<Longrightarrow>
     parse_elements n (join ('','' @ [CHR 0x0A] @ indent) (serialize_elements indent xs) @
                       [CHR 0x0A] @ i0 @ '']'' @ r) = Some (xs, r)"
  "kvs \<noteq> [] \<Longrightarrow> exact_members kvs \<Longrightarrow> list_all is_ws indent \<Longrightarrow> list_all is_ws i0 \<Longrightarrow>
     need_members kvs \<le> n \<Longrightarrow>
     parse_members n (join ('','' @ [CHR 0x0A] @ indent) (serialize_members indent kvs) @
                      [CHR 0x0A] @ i0 @ ''}'' @ r) = Some (kvs, r)"
proof (induction indent v and indent xs and indent kvs arbitrary: n r and n r i0 and n r i0
    rule: SerializeJSONProperty_serialize_elements_serialize_members.induct)
  case (1 indent)
  then obtain m where "n = Suc m" by (cases n) auto
  then show ?case by (simp add: parse_value_literal)
next
  case (2 indent b)
  then obtain m where "n = Suc m" by (cases n) auto
  then show ?case by (cases b) (simp_all add: parse_value_literal)
next
  case (3 indent k)
  then obtain m where n: "n = Suc m" by (cases n) auto
  from 3 obtain q where q: "k = Finite q" "is_double q" by (cases k) auto
  obtain c t where c: "NumberToString k = c # t" "c = CHR ''-'' \<or> is_digit c"
    using NumberToString_Cons [of k] q(1) by auto
  have "parse_value (Suc m) (c # t @ r) = parse_number (c # t @ r)"
    using c(2) by (rule parse_value_number)
  then have "parse_value n (NumberToString k @ r) = parse_number (NumberToString k @ r)"
    using c(1) n by simp
  with 3 q show ?case by (simp add: parse_number_NumberToString)
next
  case (4 indent s)
  then obtain m where n: "n = Suc m" by (cases n) auto
  obtain t where t: "QuoteJSONString s @ r = CHR 0x22 # t" "parse_chars t = Some (s, r)"
    using parse_chars_QuoteJSONString [of s r] by blast
  show ?case
    unfolding SerializeJSONProperty.simps t(1) n parse_value_string t(2) by simp
next
  case (5 indent xs)
  obtain m where n: "n = Suc m" and m: "need_elements xs \<le> m"
    using "5.prems"(3) by (cases n) auto
  show ?case
  proof (cases "xs = []")
    case True
    then show ?thesis
      unfolding n by (simp add: parse_value_empty)
  next
    case False
    let ?i = "indent @ gap"
    let ?body = "join ('','' @ [CHR 0x0A] @ ?i) (serialize_elements ?i xs) @
        [CHR 0x0A] @ indent @ '']'' @ r"
    have ws: "list_all is_ws ?i" using "5.prems"(2) by (rule ws_gap)
    have elems: "parse_elements m ?body = Some (xs, r)"
      using "5.IH" [OF False False _ ws "5.prems"(2) m] "5.prems"(1) by simp
    obtain x xs' where xs: "xs = x # xs'" using False by (cases xs) auto
    obtain c t where c: "SerializeJSONProperty ?i x = c # t" "\<not> is_ws c" "c \<noteq> CHR '']''"
      using serialize_first [of ?i x] by blast
    then obtain t' where body: "?body = c # t'"
      unfolding xs serialize_elements.simps join_Cons by simp
    have w: "list_all is_ws (CHR 0x0A # ?i)" using ws by (simp add: is_ws_simps)
    have "parse_value (Suc m) (CHR ''['' # (CHR 0x0A # ?i) @ c # t') = Some (JArr xs, r)"
      using w c(2,3) elems [unfolded body] by (rule parse_value_array)
    moreover have "SerializeJSONProperty indent (JArr xs) @ r =
        CHR ''['' # (CHR 0x0A # ?i) @ ?body"
      using False by simp
    ultimately show ?thesis unfolding n body by simp
  qed
next
  case (6 indent kvs)
  obtain m where n: "n = Suc m" and m: "need_members kvs \<le> m"
    using "6.prems"(3) by (cases n) auto
  show ?case
  proof (cases "kvs = []")
    case True
    then show ?thesis
      unfolding n by (simp add: parse_value_empty)
  next
    case False
    let ?i = "indent @ gap"
    let ?body = "join ('','' @ [CHR 0x0A] @ ?i) (serialize_members ?i kvs) @
        [CHR 0x0A] @ indent @ ''}'' @ r"
    have ws: "list_all is_ws ?i" using "6.prems"(2) by (rule ws_gap)
    have mem: "parse_members m ?body = Some (kvs, r)"
      using "6.IH" [OF False False _ ws "6.prems"(2) m] "6.prems"(1) by simp
    obtain k v kvs' where kvs: "kvs = (k, v) # kvs'" using False by (cases kvs) auto
    obtain t' where body: "?body = CHR 0x22 # t'"
      unfolding kvs serialize_members.simps join_Cons by (simp add: QuoteJSONString_def)
    have w: "list_all is_ws (CHR 0x0A # ?i)" using ws by (simp add: is_ws_simps)
    have "parse_value (Suc m) (CHR ''{'' # (CHR 0x0A # ?i) @ CHR 0x22 # t') =
        Some (make_object kvs, r)"
      using w _ _ mem [unfolded body] by (rule parse_value_object) (simp_all add: is_ws_simps)
    moreover have "make_object kvs = JObj kvs"
      using "6.prems"(1) by (simp add: make_object_members)
    moreover have "SerializeJSONProperty indent (JObj kvs) @ r =
        CHR ''{'' # (CHR 0x0A # ?i) @ ?body"
      using False by simp
    ultimately show ?thesis unfolding n body by simp
  qed
next
  case (7 indent)
  then show ?case by simp
next
  case (8 indent x xs)
  obtain m where n: "n = Suc m" and mx: "need x \<le> m" and mxs: "need_elements xs \<le> m"
    using "8.prems"(5) by (cases n) auto
  have vx: "exact x" and vxs: "exact_values xs" using "8.prems"(2) by simp_all
  show ?case
  proof (cases "xs = []")
    case True
    let ?tail = "(CHR 0x0A # i0) @ CHR '']'' # r"
    have "parse_value m (SerializeJSONProperty indent x @ ?tail) = Some (x, ?tail)"
      using vx "8.prems"(3) mx by (intro "8.IH"(1)) (simp_all add: delim_tail)
    moreover have "list_all is_ws (CHR 0x0A # i0)"
      using "8.prems"(4) by (simp add: is_ws_simps)
    ultimately have "parse_elements (Suc m) (SerializeJSONProperty indent x @ ?tail) =
        Some ([x], r)"
      by (rule parse_elements_last)
    then show ?thesis unfolding n using True by simp
  next
    case False
    let ?rest = "join ('','' @ [CHR 0x0A] @ indent) (serialize_elements indent xs) @
        [CHR 0x0A] @ i0 @ '']'' @ r"
    let ?tail = "CHR '','' # (CHR 0x0A # indent) @ ?rest"
    have "parse_value m (SerializeJSONProperty indent x @ ?tail) = Some (x, ?tail)"
      using vx "8.prems"(3) mx by (intro "8.IH"(1)) (simp_all add: delim_tail)
    moreover have "list_all is_ws (CHR 0x0A # indent)"
      using "8.prems"(3) by (simp add: is_ws_simps)
    moreover have "parse_elements m ?rest = Some (xs, r)"
      using False vxs "8.prems"(3,4) mxs by (rule "8.IH"(2))
    ultimately have "parse_elements (Suc m) (SerializeJSONProperty indent x @ ?tail) =
        Some (x # xs, r)"
      by (rule parse_elements_more)
    then show ?thesis
      unfolding n serialize_elements.simps join_Cons using False
      by (simp add: serialize_Nil_iff)
  qed
next
  case (9 indent)
  then show ?case by simp
next
  case (10 indent k v kvs)
  obtain m where n: "n = Suc m" and mv: "need v \<le> m" and mkvs: "need_members kvs \<le> m"
    using "10.prems"(5) by (cases n) auto
  have vv: "exact v" and vkvs: "exact_members kvs" using "10.prems"(2) by simp_all
  show ?case
  proof (cases "kvs = []")
    case True
    let ?tail = "(CHR 0x0A # i0) @ CHR ''}'' # r"
    let ?val = "SerializeJSONProperty indent v @ ?tail"
    obtain t where t: "QuoteJSONString k @ CHR '':'' # CHR '' '' # ?val = CHR 0x22 # t"
      "parse_chars t = Some (k, CHR '':'' # CHR '' '' # ?val)"
      using parse_chars_QuoteJSONString [of k "CHR '':'' # CHR '' '' # ?val"] by blast
    have "parse_value m ?val = Some (v, ?tail)"
      using vv "10.prems"(3) mv by (intro "10.IH"(1)) (simp_all add: delim_tail)
    then have "parse_value m (CHR '' '' # ?val) = Some (v, ?tail)"
      using parse_value_ws [of "'' ''" m ?val] by (simp add: is_ws_simps)
    moreover have "list_all is_ws (CHR 0x0A # i0)"
      using "10.prems"(4) by (simp add: is_ws_simps)
    ultimately have "parse_members (Suc m) (CHR 0x22 # t) = Some ([(k, v)], r)"
      using t(2) by (intro parse_members_last)
    then show ?thesis unfolding n t(1) [symmetric] using True by simp
  next
    case False
    let ?rest = "join ('','' @ [CHR 0x0A] @ indent) (serialize_members indent kvs) @
        [CHR 0x0A] @ i0 @ ''}'' @ r"
    let ?tail = "CHR '','' # (CHR 0x0A # indent) @ ?rest"
    let ?val = "SerializeJSONProperty indent v @ ?tail"
    obtain t where t: "QuoteJSONString k @ CHR '':'' # CHR '' '' # ?val = CHR 0x22 # t"
      "parse_chars t = Some (k, CHR '':'' # CHR '' '' # ?val)"
      using parse_chars_QuoteJSONString [of k "CHR '':'' # CHR '' '' # ?val"] by blast
    have "parse_value m ?val = Some (v, ?tail)"
      using vv "10.prems"(3) mv by (intro "10.IH"(1)) (simp_all add: delim_tail)
    then have "parse_value m (CHR '' '' # ?val) = Some (v, ?tail)"
      using parse_value_ws [of "'' ''" m ?val] by (simp add: is_ws_simps)
    moreover have "list_all is_ws (CHR 0x0A # indent)"
      using "10.prems"(3) by (simp add: is_ws_simps)
    moreover have "parse_members m ?rest = Some (kvs, r)"
      using False vkvs "10.prems"(3,4) mkvs by (rule "10.IH"(2))
    ultimately have "parse_members (Suc m) (CHR 0x22 # t) = Some ((k, v) # kvs, r)"
      using t(2) by (intro parse_members_more)
    then show ?thesis
      unfolding n t(1) [symmetric] serialize_members.simps join_Cons using False
      by (simp add: serialize_Nil_iff)
  qed
qed

lemma need_le_length:
  "need v \<le> length (SerializeJSONProperty indent v)"
  "need_elements xs \<le>
     Suc (length (join ('','' @ [CHR 0x0A] @ indent) (serialize_elements indent xs)))"
  "need_members kvs \<le>
     Suc (length (join ('','' @ [CHR 0x0A] @ indent) (serialize_members indent kvs)))"
proof (induction indent v and indent xs and indent kvs
    rule: SerializeJSONProperty_serialize_elements_serialize_members.induct)
  case (3 indent n)
  then show ?case
    using NumberToString_not_Nil [of n] by (cases "NumberToString n") simp_all
next
  case (4 indent s)
  then show ?case by (simp add: QuoteJSONString_def)
next
  case (5 indent xs)
  then show ?case by (cases "xs = []") simp_all
next
  case (6 indent kvs)
  then show ?case by (cases "kvs = []") simp_all
next
  case (8 indent x xs)
  then show ?case
    unfolding serialize_elements.simps join_Cons need_elements.simps
    by (cases "xs = []") (simp_all add: serialize_Nil_iff)
next
  case (10 indent k v kvs)
  then show ?case
    unfolding serialize_members.simps join_Cons need_members.simps
    by (cases "kvs = []") (simp_all add: serialize_Nil_iff)
qed simp_all

lemma JSON_round_trip:
  assumes "exact v"
  shows "JSON_parse (JSON_stringify v) = Some v"
proof -
  have "need v \<le> Suc (length (SerializeJSONProperty [] v))"
    using need_le_length(1) [of v "[]"] by simp
  then have "parse_value (Suc (length (SerializeJSONProperty [] v)))
      (SerializeJSONProperty [] v @ []) = Some (v, [])"
    using assms by (intro parse_serialized(1)) (simp_all add: delim_def)
  then show ?thesis
    by (simp add: JSON_parse_def JSON_stringify_def skip_ws_def)
qed

subsection \<open>What \<^verbatim>\<open>JSON.parse\<close> returns is well formed\<close>

lemma json_members_iff: "json_members kvs \<longleftrightarrow> (\<forall>p \<in> set kvs. json_value (snd p))"
  by (induction kvs) auto

lemma parse_number_json_value: "parse_number s = Some (v, r) \<Longrightarrow> json_value v"
  by (auto simp: parse_number_def number_value_is_number negate_is_number
      dest!: parse_unsigned_nonneg split: list.splits if_splits option.splits)

lemma index_of_digits: "index_of k = Some i \<Longrightarrow> k = digits i"
  by (auto simp: index_of_def split: if_splits)

lemma ordered_keys_Cons:
  "ordered_keys (a # xs) \<longleftrightarrow>
     xs = [] \<or>
     (case index_of (hd xs) of
        None \<Rightarrow> True
      | Some j \<Rightarrow> (case index_of a of None \<Rightarrow> False | Some i \<Rightarrow> i < j)) \<and> ordered_keys xs"
  by (cases xs) simp_all

lemma ordered_keys_snoc:
  assumes "ordered_keys ks" and "index_of k = None"
  shows "ordered_keys (ks @ [k])"
  using assms
  by (induction ks rule: ordered_keys.induct) simp_all

lemma set_insert_index: "set (insert_index i k v ps) = insert (k, v) (set ps)"
  by (induction ps) (auto split: option.splits)

lemma hd_insert_index:
  "hd (insert_index i k v ps) = (k, v) \<or> (ps \<noteq> [] \<and> hd (insert_index i k v ps) = hd ps)"
  by (cases ps) (auto split: option.splits)

lemma insert_index_not_Nil: "insert_index i k v ps \<noteq> []"
  by (cases ps) (auto split: option.splits)

lemma distinct_insert_index:
  assumes "distinct (map fst ps)" and "k \<notin> fst ` set ps"
  shows "distinct (map fst (insert_index i k v ps))"
  using assms
proof (induction ps)
  case Nil
  show ?case by simp
next
  case (Cons p ps)
  have "fst p \<notin> fst ` set (insert_index i k v ps)"
    using Cons.prems by (auto simp: set_insert_index)
  with Cons show ?case by (auto split: option.splits)
qed

lemma ordered_insert_index:
  assumes "ordered_keys (map fst ps)" and "index_of k = Some i"
    and "\<forall>p \<in> set ps. index_of (fst p) \<noteq> Some i"
  shows "ordered_keys (map fst (insert_index i k v ps))"
  using assms
proof (induction ps)
  case Nil
  show ?case by simp
next
  case (Cons p ps)
  show ?case
  proof (cases "index_of (fst p)")
    case None
    with Cons.prems show ?thesis by simp
  next
    case (Some j)
    show ?thesis
    proof (cases "j < i")
      case False
      with Some Cons.prems have "i < j" by auto
      with Some Cons.prems False show ?thesis by simp
    next
      case True
      have tl: "ordered_keys (map fst (insert_index i k v ps))"
        using Cons.prems by (intro Cons.IH) (auto simp: ordered_keys_Cons)
      have "case index_of (fst (hd (insert_index i k v ps))) of
          None \<Rightarrow> True
        | Some l \<Rightarrow> (case index_of (fst p) of None \<Rightarrow> False | Some i \<Rightarrow> i < l)"
      proof (cases "hd (insert_index i k v ps) = (k, v)")
        case True
        then show ?thesis using Some \<open>j < i\<close> Cons.prems(2) by simp
      next
        case False
        then have "ps \<noteq> []" "hd (insert_index i k v ps) = hd ps"
          using hd_insert_index [of i k v ps] by auto
        then show ?thesis
          using Cons.prems(1) by (cases ps) simp_all
      qed
      then have "ordered_keys (fst p # map fst (insert_index i k v ps))"
        using tl insert_index_not_Nil [of i k v ps]
        by (simp add: ordered_keys_Cons hd_map)
      with Some True show ?thesis by simp
    qed
  qed
qed

lemma CreateDataProperty_ok:
  assumes "object_ok obj" and "json_value (snd kv)"
  shows "object_ok (CreateDataProperty obj kv)"
proof (cases "fst kv \<in> fst ` set obj")
  case True
  let ?f = "\<lambda>p. if fst p = fst kv then kv else p"
  have eq: "map fst (map ?f obj) = map fst obj"
    by (induction obj) auto
  have "json_members (map ?f obj)"
    using assms by (auto simp: json_members_iff object_ok_def)
  then have "object_ok (map ?f obj)"
    using assms(1) unfolding object_ok_def eq by simp
  then show ?thesis
    using True by (simp add: CreateDataProperty_def)
next
  case False
  show ?thesis
  proof (cases "index_of (fst kv)")
    case None
    with False assms show ?thesis
      by (auto simp: CreateDataProperty_def object_ok_def ordered_keys_snoc json_members_iff)
  next
    case (Some i)
    have "\<forall>p \<in> set obj. index_of (fst p) \<noteq> Some i"
    proof
      fix p assume p: "p \<in> set obj"
      show "index_of (fst p) \<noteq> Some i"
      proof
        assume "index_of (fst p) = Some i"
        then have "fst p = fst kv" using Some by (metis index_of_digits)
        with p False show False by (metis imageI)
      qed
    qed
    then have "ordered_keys (map fst (insert_index i (fst kv) (snd kv) obj))"
      using assms(1) Some by (intro ordered_insert_index) (simp_all add: object_ok_def)
    moreover have "distinct (map fst (insert_index i (fst kv) (snd kv) obj))"
      using assms(1) False by (intro distinct_insert_index) (simp_all add: object_ok_def)
    moreover have "json_members (insert_index i (fst kv) (snd kv) obj)"
      using assms by (auto simp: json_members_iff set_insert_index object_ok_def)
    ultimately show ?thesis
      using False Some by (simp add: CreateDataProperty_def object_ok_def)
  qed
qed

lemma foldl_CreateDataProperty_ok:
  "object_ok obj \<Longrightarrow> json_members kvs \<Longrightarrow> object_ok (foldl CreateDataProperty obj kvs)"
proof (induction kvs arbitrary: obj)
  case Nil
  then show ?case by simp
next
  case (Cons kv kvs)
  then show ?case
    by (cases kv) (simp add: CreateDataProperty_ok)
qed

lemma make_object_json_value: "json_members kvs \<Longrightarrow> json_value (make_object kvs)"
  using foldl_CreateDataProperty_ok [of "[]" kvs]
  by (simp add: make_object_def object_ok_def)

lemma parse_json_value:
  "(\<forall>s v r. parse_value n s = Some (v, r) \<longrightarrow> json_value v) \<and>
   (\<forall>s vs r. parse_elements n s = Some (vs, r) \<longrightarrow> json_values vs) \<and>
   (\<forall>s kvs r. parse_members n s = Some (kvs, r) \<longrightarrow> json_members kvs)"
proof (induction n)
  case 0
  show ?case by (simp add: parse_value.simps parse_elements.simps parse_members.simps)
next
  case (Suc n)
  have v: "json_value v" if "parse_value n s = Some (v, r)" for s v r
    using that Suc by blast
  have es: "json_values vs" if "parse_elements n s = Some (vs, r)" for s vs r
    using that Suc by blast
  have ms: "json_members kvs" if "parse_members n s = Some (kvs, r)" for s kvs r
    using that Suc by blast
  have 1: "json_value v" if "parse_value (Suc n) s = Some (v, r)" for s v r
    using that
    by (auto simp: parse_value.simps parse_number_json_value
        split: list.splits if_splits option.splits)
      (metis make_object_json_value ms es)+
  have 2: "json_values vs" if "parse_elements (Suc n) s = Some (vs, r)" for s vs r
    using that
    by (auto simp: parse_elements.simps split: if_splits option.splits) (metis v es)+
  have 3: "json_members kvs" if "parse_members (Suc n) s = Some (kvs, r)" for s kvs r
    using that
    by (auto simp: parse_members.simps split: if_splits option.splits) (metis v ms)+
  from 1 2 3 show ?case by blast
qed

lemma JSON_parse_json_value:
  assumes "JSON_parse s = Some v"
  shows "json_value v"
proof -
  obtain r where "parse_value (Suc (length s)) s = Some (v, r)"
    using assms by (auto simp: JSON_parse_def split: option.splits if_splits)
  then show ?thesis
    using parse_json_value [of "Suc (length s)"] by blast
qed

section \<open>Successful calls of the tools\<close>

lemma exact_iff:
  "exact v \<longleftrightarrow> json_value v \<and> plain v"
  "exact_values xs \<longleftrightarrow> json_values xs \<and> plain_values xs"
  "exact_members kvs \<longleftrightarrow> json_members kvs \<and> plain_members kvs"
proof (induction v and xs and kvs rule: exact_exact_values_exact_members.induct)
  case (3 n)
  show ?case by (cases n) simp_all
qed auto

lemma api_get_success:
  assumes "net \<lparr>baseURL = Some BASE_URL, url = path, params = ps, responseType = None\<rparr> =
      Resolved r"
  shows "snd (api_get net path ps) = Inr (success_result (data r))"
  using assms by (simp add: api_get_def)

lemma call_tool_api_get:
  assumes "fst (call_tool net nm args) \<noteq> []"
  shows "\<exists>path ps. call_tool net nm args = api_get net path ps"
proof -
  consider "nm = ''package_search''" "isValidPackageSearchArgs args"
    | "nm = ''package_show''" "isValidPackageShowArgs args"
    | "nm = ''group_list''" "isValidGroupListArgs args"
    | "nm = ''tag_list''" "isValidTagListArgs args"
    using call_made_valid [OF assms] by blast
  then show ?thesis
  proof cases
    case 1
    then have "\<exists>ps. call_tool net nm args = api_get net ''/action/package_search'' ps"
      by (auto simp: valid_call(1) packageSearch_def)
    then show ?thesis by (rule exI)
  next
    case 2
    then have "\<exists>ps. call_tool net nm args = api_get net ''/action/package_show'' ps"
      by (auto simp: valid_call(2) packageShow_def)
    then show ?thesis by (rule exI)
  next
    case 3
    then have "\<exists>ps. call_tool net nm args = api_get net ''/action/group_list'' ps"
      by (auto simp: valid_call(3) groupList_def)
    then show ?thesis by (rule exI)
  next
    case 4
    then have "\<exists>ps. call_tool net nm args = api_get net ''/action/tag_list'' ps"
      by (auto simp: valid_call(4) tagList_def)
    then show ?thesis by (rule exI)
  qed
qed

lemma tools_call_made:
  assumes "fst (tools_call net nm args) \<noteq> []"
  shows "tools_call net nm args = call_tool net nm args"
  using assms by (auto simp: tools_call_def split: if_splits)

text \<open>
  Claim C1 says that the text of a successful call parses to the identical value for
  every body that is JSON.  That holds for the plain bodies.  When a \<^verbatim>\<open>tools/call\<close>
  request makes the GET \<open>req\<close> (so the name is one of the four tools and the arguments
  passed the request schema and the validator of the tool), the remote side answers
  \<open>req\<close> with a response, and the body of the response is a value as \<^verbatim>\<open>JSON.parse\<close>
  builds it in which no number is \<^verbatim>\<open>-0\<close> or an infinity, then the call returns the
  envelope with one text block, whose text is \<^verbatim>\<open>JSON.stringify(body, null, 2)\<close>, and no
  failure flag; and \<^verbatim>\<open>JSON.parse\<close> of the text gives the body back.
\<close>

theorem tool_success_round_trip:
  assumes "fst (tools_call net nm args) = [req]"
    and "net req = Resolved r"
    and "json_value (data r)"
    and "plain (data r)"
  shows "snd (tools_call net nm args) =
           Inr \<lparr>content = [\<lparr>ctype = ''text'', ctext = JSON_stringify (data r)\<rparr>],
                isError = None\<rparr> \<and>
         JSON_parse (JSON_stringify (data r)) = Some (data r)"
proof -
  have t: "tools_call net nm args = call_tool net nm args"
    using assms(1) by (intro tools_call_made) simp
  obtain path ps where c: "call_tool net nm args = api_get net path ps"
    using call_tool_api_get [of net nm args] assms(1) t by auto
  then have "req = \<lparr>baseURL = Some BASE_URL, url = path, params = ps, responseType = None\<rparr>"
    using assms(1) t by (simp add: fst_api_get)
  then have "snd (api_get net path ps) = Inr (success_result (data r))"
    using assms(2) by (intro api_get_success) simp
  moreover have "exact (data r)"
    using assms(3,4) by (simp add: exact_iff)
  ultimately show ?thesis
    using c t JSON_round_trip [of "data r"] by (simp add: success_result_def)
qed

lemma example_numbers:
  "NumberToString (Finite (3 / 2)) = ''1.5''"
  "NumberToString (Finite 1000000000000000000000) = ''1e+21''"
proof -
  have "shortest_digits (3 / 2) = (1, 2, 15)"
    by (simp add: number_eval digits_eval)
  then show "NumberToString (Finite (3 / 2)) = ''1.5''"
    by (simp add: NumberToString.simps string_eval)
  have "shortest_digits 1000000000000000000000 = (22, 1, 1)"
    by (simp add: number_eval digits_eval)
  then show "NumberToString (Finite 1000000000000000000000) = ''1e+21''"
    by (simp add: NumberToString.simps string_eval)
qed

lemma example_names:
  "QuoteJSONString ''success'' = [CHR 0x22] @ ''success'' @ [CHR 0x22]"
  "QuoteJSONString ''result'' = [CHR 0x22] @ ''result'' @ [CHR 0x22]"
  "QuoteJSONString ''a'' = [CHR 0x22] @ ''a'' @ [CHR 0x22]"
  by code_simp+

lemma example_stringify: "JSON_stringify example_body = example_text"
  by (simp add: JSON_stringify_def example_body_def example_text_def example_numbers
      example_names gap_def)

lemma example_doubles:
  "is_double (3 / 2)"
  "is_double 1000000000000000000000"
  by (simp_all add: is_double_def number_eval)

lemma example_json_value: "json_value example_body"
  by (simp add: example_body_def index_of_def is_digit_def example_doubles)

lemma example_plain: "plain example_body"
  by (simp add: example_body_def)

lemma example_requests:
  "fst (tools_call net ''package_search'' (Val (JObj [(''q'', JStr ''water'')]))) =
     [\<lparr>baseURL = Some BASE_URL, url = ''/action/package_search'',
       params = Val (JObj [(''q'', JStr ''water'')]), responseType = None\<rparr>]"
  "fst (tools_call net ''package_show'' (Val (JObj [(''id'', JStr ''x'')]))) =
     [\<lparr>baseURL = Some BASE_URL, url = ''/action/package_show'',
       params = Val (JObj [(''id'', JStr ''x'')]), responseType = None\<rparr>]"
  "fst (tools_call net ''group_list'' (Val (JObj []))) =
     [\<lparr>baseURL = Some BASE_URL, url = ''/action/group_list'',
       params = Val (JObj []), responseType = None\<rparr>]"
  "fst (tools_call net ''tag_list'' (Val (JObj [(''all_fields'', JBool True)]))) =
     [\<lparr>baseURL = Some BASE_URL, url = ''/action/tag_list'',
       params = Val (JObj [(''all_fields'', JBool True)]), responseType = None\<rparr>]"
  by (simp_all add: tools_call_def CallToolRequestSchema_def call_tool_def
      isValidPackageSearchArgs_def isValidPackageShowArgs_def
      isValidGroupListArgs_def isValidTagListArgs_def packageSearch_def packageShow_def
      groupList_def tagList_def fst_api_get)

text \<open>
  Witness for C1: each of the four tools, answered with the example body, which has
  a fraction and a number of exponent form; the text is the body on eight lines,
  indented by two and four spaces.
\<close>

theorem tool_success_round_trip_witness:
  "snd (tools_call (\<lambda>req. Resolved (Response 200 [] example_body)) ''package_search''
         (Val (JObj [(''q'', JStr ''water'')]))) =
     Inr \<lparr>content = [\<lparr>ctype = ''text'', ctext = example_text\<rparr>], isError = None\<rparr> \<and>
   snd (tools_call (\<lambda>req. Resolved (Response 200 [] example_body)) ''package_show''
         (Val (JObj [(''id'', JStr ''x'')]))) =
     Inr \<lparr>content = [\<lparr>ctype = ''text'', ctext = example_text\<rparr>], isError = None\<rparr> \<and>
   snd (tools_call (\<lambda>req. Resolved (Response 200 [] example_body)) ''group_list''
         (Val (JObj []))) =
     Inr \<lparr>content = [\<lparr>ctype = ''text'', ctext = example_text\<rparr>], isError = None\<rparr> \<and>
   snd (tools_call (\<lambda>req. Resolved (Response 200 [] example_body)) ''tag_list''
         (Val (JObj [(''all_fields'', JBool True)]))) =
     Inr \<lparr>content = [\<lparr>ctype = ''text'', ctext = example_text\<rparr>], isError = None\<rparr> \<and>
   JSON_parse example_text = Some example_body"
proof -
  let ?net = "\<lambda>req :: request_config. Resolved (Response 200 [] example_body)"
  have v: "json_value (data (Response 200 [] example_body))"
    by (simp add: example_json_value)
  have p: "plain (data (Response 200 [] example_body))"
    by (simp add: example_plain)
  note t = tool_success_round_trip [where net = ?net, OF _ refl v p]
  show ?thesis
    using t [OF example_requests(1)] t [OF example_requests(2)] t [OF example_requests(3)]
      t [OF example_requests(4)]
    by (simp add: example_stringify)
qed

text \<open>
  Counterexample to C1 as stated: \<^verbatim>\<open>tag_list\<close> with \<^verbatim>\<open>{}\<close>, answered by HTTP 200 with
  the body \<^verbatim>\<open>{"result":1e400}\<close>.  The body is JSON, and decoding it gives the number
  \<^verbatim>\<open>Infinity\<close>, for which \<^verbatim>\<open>JSON.stringify\<close> writes \<^verbatim>\<open>null\<close>: the text of the envelope
  parses to \<^verbatim>\<open>{"result": null}\<close>, which is not the body.
\<close>

theorem overflowing_number_not_round_tripped:
  "JSON_parse (''{'' @ [CHR 0x22] @ ''result'' @ [CHR 0x22] @ '':1e400}'') =
     Some (JObj [(''result'', JNum PosInfinity)]) \<and>
   tools_call (\<lambda>req. Resolved (Response 200 [] (JObj [(''result'', JNum PosInfinity)])))
     ''tag_list'' (Val (JObj [])) =
     ([\<lparr>baseURL = Some BASE_URL, url = ''/action/tag_list'', params = Val (JObj []),
        responseType = None\<rparr>],
      Inr \<lparr>content = [\<lparr>ctype = ''text'',
             ctext = ''{'' @ [CHR 0x0A] @ ''  '' @ [CHR 0x22] @ ''result'' @ [CHR 0x22] @
                     '': null'' @ [CHR 0x0A] @ ''}''\<rparr>],
           isError = None\<rparr>) \<and>
   JSON_parse (''{'' @ [CHR 0x0A] @ ''  '' @ [CHR 0x22] @ ''result'' @ [CHR 0x22] @
               '': null'' @ [CHR 0x0A] @ ''}'') =
     Some (JObj [(''result'', JNull)]) \<and>
   JObj [(''result'', JNull)] \<noteq> JObj [(''result'', JNum PosInfinity)]"
proof -
  have n: "parse_number '':1e400}'' = None \<and> parse_number ''1e400}'' = Some (JNum PosInfinity, ''}'')"
    by (simp add: parse_number_def parse_unsigned_def parse_int_def parse_fraction_def
        parse_exponent_def is_digit_def digit_value_def number_value_overflow)
  have 1: "JSON_parse (''{'' @ [CHR 0x22] @ ''result'' @ [CHR 0x22] @ '':1e400}'') =
      Some (JObj [(''result'', JNum PosInfinity)])"
    by (simp add: JSON_parse_def parse_value.simps parse_members.simps skip_ws_def is_ws_def
        is_digit_def prepend_def make_object_def CreateDataProperty_def index_of_def n)
  have 2: "JSON_parse (''{'' @ [CHR 0x0A] @ ''  '' @ [CHR 0x22] @ ''result'' @ [CHR 0x22] @
               '': null'' @ [CHR 0x0A] @ ''}'') =
     Some (JObj [(''result'', JNull)])"
    by (simp add: JSON_parse_def parse_value.simps parse_members.simps skip_ws_def is_ws_def
        is_digit_def prepend_def make_object_def CreateDataProperty_def index_of_def)
  have 3: "tools_call (\<lambda>req. Resolved (Response 200 [] (JObj [(''result'', JNum PosInfinity)])))
     ''tag_list'' (Val (JObj [])) =
     ([\<lparr>baseURL = Some BASE_URL, url = ''/action/tag_list'', params = Val (JObj []),
        responseType = None\<rparr>],
      Inr \<lparr>content = [\<lparr>ctype = ''text'',
             ctext = ''{'' @ [CHR 0x0A] @ ''  '' @ [CHR 0x22] @ ''result'' @ [CHR 0x22] @
                     '': null'' @ [CHR 0x0A] @ ''}''\<rparr>],
           isError = None\<rparr>)"
    by (simp add: tools_call_def CallToolRequestSchema_def call_tool_def isValidTagListArgs_def
        tagList_def api_get_def success_result_def JSON_stringify_def example_names gap_def)
  from 1 2 3 show ?thesis by simp
qed

text \<open>
  The negative zero is the other number that is not plain: \<^verbatim>\<open>JSON.stringify\<close> writes
  \<^verbatim>\<open>0\<close> for it, which parses to the positive zero.
\<close>

lemma negative_zero_not_round_tripped:
  "JSON_parse ''-0'' = Some (JNum NegZero) \<and>
   JSON_stringify (JNum NegZero) = ''0'' \<and>
   JSON_parse ''0'' = Some (JNum (Finite 0))"
proof -
  have "parse_number ''-0'' = Some (JNum NegZero, [])"
    "parse_number ''0'' = Some (JNum (Finite 0), [])"
    by (simp_all add: parse_number_def parse_unsigned_def parse_int_def parse_fraction_def
        parse_exponent_def is_digit_def digit_value_def number_value_def)
  then show ?thesis
    by (simp add: JSON_parse_def parse_value.simps skip_ws_def is_ws_def is_digit_def
        JSON_stringify_def NumberToString.simps)
qed

end
